theory Spec2Isabelle
  imports Main "HOL-Library.Signed_Division"
begin

section \<open>Solidity arithmetic (pragma ^0.8.20: checked uint256)\<close>

text \<open>
  The contracts are compiled with Solidity 0.8, where \<open>+\<close>, \<open>-\<close> and \<open>*\<close> on
  \<open>uint256\<close> revert with \<open>Panic(0x11)\<close> instead of wrapping, and \<open>/\<close> reverts with
  \<open>Panic(0x12)\<close> on a zero divisor. A \<open>uint256\<close> is modelled as a \<open>nat\<close> below
  \<open>2 ^ 256\<close>; every revert is a value \<open>Inl e\<close>. The two arithmetic panics of
  \<open>Panic(0x11)\<close> are kept apart (overflow of \<open>+\<close>/\<open>*\<close>, underflow of \<open>-\<close>) so that
  a theorem can say which operation failed.
\<close>

datatype sol_error =
    InsufficientOutputAmount
  | InsufficientReserves
  | InsufficientOutput nat nat nat
  | RequireFailed string
  | PanicOverflow
  | PanicUnderflow
  | PanicDivisionByZero

definition UINT256_LIMIT :: nat where
  "UINT256_LIMIT = 2 ^ 256"

definition is_uint256 :: "nat \<Rightarrow> bool" where
  "is_uint256 n = (n < UINT256_LIMIT)"

definition checked_mul :: "nat \<Rightarrow> nat \<Rightarrow> sol_error + nat" where
  "checked_mul a b = (if a * b < UINT256_LIMIT then Inr (a * b) else Inl PanicOverflow)"

definition checked_add :: "nat \<Rightarrow> nat \<Rightarrow> sol_error + nat" where
  "checked_add a b = (if a + b < UINT256_LIMIT then Inr (a + b) else Inl PanicOverflow)"

definition checked_sub :: "nat \<Rightarrow> nat \<Rightarrow> sol_error + nat" where
  "checked_sub a b = (if b \<le> a then Inr (a - b) else Inl PanicUnderflow)"

definition checked_div :: "nat \<Rightarrow> nat \<Rightarrow> sol_error + nat" where
  "checked_div a b = (if b = 0 then Inl PanicDivisionByZero else Inr (a div b))"

text \<open>Sequencing of statements that may revert: the first revert ends the call.\<close>

definition sol_bind :: "sol_error + 'a \<Rightarrow> ('a \<Rightarrow> sol_error + 'b) \<Rightarrow> sol_error + 'b" where
  "sol_bind r f = (case r of Inl e \<Rightarrow> Inl e | Inr v \<Rightarrow> f v)"

section \<open>Constant-product output: DexLibrary and FlashArbitrage\<close>

text \<open>\<open>DexLibrary\<close>: \<open>V2_FEE_DENOMINATOR = 1000\<close>, \<open>V2_FEE_NUMERATOR = 997\<close>.\<close>

definition V2_FEE_DENOMINATOR :: nat where
  "V2_FEE_DENOMINATOR = 1000"

definition V2_FEE_NUMERATOR :: nat where
  "V2_FEE_NUMERATOR = 997"

text \<open>
  \<open>DexLibrary.getV2AmountOut(amountIn, reserveIn, reserveOut)\<close>: two guards with custom
  errors, then \<open>amountInWithFee\<close>, \<open>numerator\<close>, \<open>denominator\<close> and the quotient, each
  operation checked. The function has no fee parameter.
\<close>

definition DexLibrary_getV2AmountOut :: "nat \<Rightarrow> nat \<Rightarrow> nat \<Rightarrow> sol_error + nat" where
  "DexLibrary_getV2AmountOut amountIn reserveIn reserveOut =
    (if amountIn = 0 then Inl InsufficientOutputAmount
     else if reserveIn = 0 \<or> reserveOut = 0 then Inl InsufficientReserves
     else
       sol_bind (checked_mul amountIn V2_FEE_NUMERATOR) (\<lambda>amountInWithFee.
       sol_bind (checked_mul amountInWithFee reserveOut) (\<lambda>numerator.
       sol_bind (checked_mul reserveIn V2_FEE_DENOMINATOR) (\<lambda>scaledReserveIn.
       sol_bind (checked_add scaledReserveIn amountInWithFee) (\<lambda>denominator.
       checked_div numerator denominator)))))"

text \<open>\<open>DexLibrary.simulateV2Swap\<close> only reorders the arguments.\<close>

definition simulateV2Swap :: "nat \<Rightarrow> nat \<Rightarrow> nat \<Rightarrow> sol_error + nat" where
  "simulateV2Swap reserveIn reserveOut amountIn =
     DexLibrary_getV2AmountOut amountIn reserveIn reserveOut"

text \<open>
  \<open>FlashArbitrage.getV2AmountOut\<close>: the same computation with \<open>require\<close> guards and the
  literals 997 and 1000.
\<close>

definition FlashArbitrage_getV2AmountOut :: "nat \<Rightarrow> nat \<Rightarrow> nat \<Rightarrow> sol_error + nat" where
  "FlashArbitrage_getV2AmountOut amountIn reserveIn reserveOut =
    (if \<not> amountIn > 0 then Inl (RequireFailed ''INSUFFICIENT_INPUT_AMOUNT'')
     else if \<not> (reserveIn > 0 \<and> reserveOut > 0) then Inl (RequireFailed ''INSUFFICIENT_LIQUIDITY'')
     else
       sol_bind (checked_mul amountIn 997) (\<lambda>amountInWithFee.
       sol_bind (checked_mul amountInWithFee reserveOut) (\<lambda>numerator.
       sol_bind (checked_mul reserveIn 1000) (\<lambda>scaledReserveIn.
       sol_bind (checked_add scaledReserveIn amountInWithFee) (\<lambda>denominator.
       checked_div numerator denominator)))))"

text \<open>
  \<open>FlashArbitrage._executeV2Swap\<close>, up to its first external call: the output is
  computed inline from the pair's reserves (no guard on the input or the reserves), and a
  zero output reverts with \<open>InsufficientOutput(0, amountOut, 1)\<close>. The token transfer and
  \<open>pair.swap\<close> that follow are calls into other contracts.
\<close>

definition executeV2Swap_amountOut :: "nat \<Rightarrow> nat \<Rightarrow> nat \<Rightarrow> sol_error + nat" where
  "executeV2Swap_amountOut amountIn reserveIn reserveOut =
     sol_bind (checked_mul amountIn 997) (\<lambda>amountInWithFee.
     sol_bind (checked_mul amountInWithFee reserveOut) (\<lambda>numerator.
     sol_bind (checked_mul reserveIn 1000) (\<lambda>scaledReserveIn.
     sol_bind (checked_add scaledReserveIn amountInWithFee) (\<lambda>denominator.
     sol_bind (checked_div numerator denominator) (\<lambda>amountOut.
     if amountOut = 0 then Inl (InsufficientOutput 0 amountOut 1) else Inr amountOut)))))"

text \<open>
  The formula as the specification words it, parametric in the fee in basis points, over
  unbounded naturals. It is the yardstick the two contract functions are compared with;
  it is not taken from the contracts.
\<close>

definition spec_v2_amountOut :: "nat \<Rightarrow> nat \<Rightarrow> nat \<Rightarrow> nat \<Rightarrow> nat" where
  "spec_v2_amountOut feeBps amountIn reserveIn reserveOut =
     (reserveOut * amountIn * (10000 - feeBps)) div
     (reserveIn * 10000 + amountIn * (10000 - feeBps))"

section \<open>Flash-loan debt and profit checks\<close>

subsection \<open>ProfitCalculator.calculateDebt (TypeScript, bigint)\<close>

text \<open>
  A \<open>bigint\<close> is an unbounded \<open>int\<close>; \<open>/\<close> on bigints truncates towards zero, which is
  \<open>sdiv\<close>. The fee is the static constant \<open>FLASH_LOAN_FEE_FACTOR = 10009\<close>; \<open>calculateDebt\<close>
  has no fee argument.
\<close>

definition FLASH_LOAN_FEE_FACTOR :: int where
  "FLASH_LOAN_FEE_FACTOR = 10009"

definition ProfitCalculator_calculateDebt :: "int \<Rightarrow> int" where
  "ProfitCalculator_calculateDebt loanAmount = (loanAmount * FLASH_LOAN_FEE_FACTOR) sdiv 10000"

subsection \<open>ProfitChecker (Solidity library)\<close>

definition FLASH_LOAN_FEE_BPS :: nat where
  "FLASH_LOAN_FEE_BPS = 9"

definition BPS_DENOMINATOR :: nat where
  "BPS_DENOMINATOR = 10000"

definition SAFETY_MARGIN_BPS :: nat where
  "SAFETY_MARGIN_BPS = 500"

record ProfitBreakdown =
  grossProfit :: nat
  flashLoanDebt :: nat
  gasCost :: nat
  netProfit :: nat

definition ProfitChecker_calculateDebt :: "nat \<Rightarrow> sol_error + nat" where
  "ProfitChecker_calculateDebt loanPrincipal =
     sol_bind (checked_mul loanPrincipal (BPS_DENOMINATOR + FLASH_LOAN_FEE_BPS)) (\<lambda>scaled.
     checked_div scaled BPS_DENOMINATOR)"

definition calculateGasCost :: "nat \<Rightarrow> nat \<Rightarrow> nat \<Rightarrow> sol_error + nat" where
  "calculateGasCost gasUnits gasPriceWei ethPriceInAsset =
     sol_bind (checked_mul gasUnits gasPriceWei) (\<lambda>gasCostWei.
     sol_bind (checked_mul gasCostWei ethPriceInAsset) (\<lambda>scaled.
     checked_div scaled (10 ^ 18)))"

text \<open>
  \<open>calculateNetProfit\<close>: the breakdown starts zeroed; the guard
  \<open>finalBalance >= flashLoanDebt + gasCost\<close> (a checked addition) decides between the two
  checked subtractions and the clamp to 0.
\<close>

definition calculateNetProfit ::
  "nat \<Rightarrow> nat \<Rightarrow> nat \<Rightarrow> nat \<Rightarrow> nat \<Rightarrow> sol_error + ProfitBreakdown" where
  "calculateNetProfit finalBalance loanPrincipal gasUnits gasPriceWei ethPriceInAsset =
     sol_bind (ProfitChecker_calculateDebt loanPrincipal) (\<lambda>debt.
     sol_bind (calculateGasCost gasUnits gasPriceWei ethPriceInAsset) (\<lambda>gas.
     sol_bind (checked_add debt gas) (\<lambda>owed.
       let breakdown = \<lparr> grossProfit = finalBalance, flashLoanDebt = debt,
                          gasCost = gas, netProfit = 0 \<rparr>
       in if finalBalance \<ge> owed
          then sol_bind (checked_sub finalBalance debt) (\<lambda>afterDebt.
               sol_bind (checked_sub afterDebt gas) (\<lambda>net.
               Inr (breakdown\<lparr> netProfit := net \<rparr>)))
          else Inr (breakdown\<lparr> netProfit := 0 \<rparr>))))"

definition meetsThreshold :: "nat \<Rightarrow> nat \<Rightarrow> sol_error + bool" where
  "meetsThreshold net minThreshold =
     sol_bind (checked_mul minThreshold (BPS_DENOMINATOR + SAFETY_MARGIN_BPS)) (\<lambda>scaled.
     sol_bind (checked_div scaled BPS_DENOMINATOR) (\<lambda>adjustedThreshold.
     Inr (net \<ge> adjustedThreshold)))"

definition isProfitable ::
  "nat \<Rightarrow> nat \<Rightarrow> nat \<Rightarrow> nat \<Rightarrow> nat \<Rightarrow> nat \<Rightarrow> sol_error + (bool \<times> ProfitBreakdown)" where
  "isProfitable finalBalance loanPrincipal gasUnits gasPriceWei ethPriceInAsset minThreshold =
     sol_bind (calculateNetProfit finalBalance loanPrincipal gasUnits gasPriceWei ethPriceInAsset)
       (\<lambda>breakdown.
     sol_bind (meetsThreshold (netProfit breakdown) minThreshold) (\<lambda>ok.
     Inr (ok, breakdown)))"

section \<open>PathFinder (TypeScript)\<close>

subsection \<open>Data\<close>

text \<open>
  \<open>LiquidityGraph.ts\<close>, \<open>v3.config.ts\<close> and the \<open>GraphEdge\<close> declaration are not among the
  sources; \<open>PathFinder\<close> only reads the fields and calls the three methods below, so the
  graph is a parameter of every function here and the pair and pool metadata are type
  parameters. A bigint is an \<open>int\<close>. The configuration's numbers are taken to be integers.
  The fields \<open>from\<close>, \<open>to\<close>, \<open>type\<close>, \<open>pair\<close> and \<open>pool\<close> of an edge are \<open>edge_from\<close>,
  \<open>edge_to\<close>, \<open>edge_kind\<close>, \<open>edge_pair\<close> and \<open>edge_pool\<close>, those of a hop \<open>hop_kind\<close>,
  \<open>hop_pair\<close>, \<open>hop_pool\<close> and \<open>hop_ticks\<close>; an optional field is an \<open>option\<close>. The only tick map \<open>PathFinder\<close> ever builds is the empty \<open>new Map()\<close>, so the
  tick data are left abstract.
\<close>

datatype dex_kind = V2 | V3

record ('pair, 'pool) GraphEdge =
  edge_from :: string
  edge_to :: string
  edge_kind :: dex_kind
  edge_pair :: "'pair option"
  edge_pool :: "'pool option"
  effectiveLiquidity :: int
  gasEstimate :: int

record ('pair, 'pool) LiquidityGraph =
  hasVertex :: "string \<Rightarrow> bool"
  getOutgoingEdges :: "string \<Rightarrow> ('pair, 'pool) GraphEdge list"
  getTokenAddresses :: "string list"

record ('pair, 'pool) PathHop =
  hop_kind :: dex_kind
  tokenIn :: string
  tokenOut :: string
  hop_pair :: "'pair option"
  hop_pool :: "'pool option"
  hop_ticks :: "(int \<times> unit) list option"

record ('pair, 'pool) ArbitragePath =
  hops :: "('pair, 'pool) PathHop list"
  tokenAddresses :: "string list"

record PathFinderConfig =
  maxDepth :: int
  minDepth :: int
  minLiquidity :: int
  maxGasEstimate :: int
  maxPathsPerToken :: int
  enablePruning :: bool

definition DEFAULT_PATHFINDER_CONFIG :: PathFinderConfig where
  "DEFAULT_PATHFINDER_CONFIG =
     \<lparr> maxDepth = 6, minDepth = 2, minLiquidity = 10000 * 10 ^ 6, maxGasEstimate = 800000,
       maxPathsPerToken = 100, enablePruning = True \<rparr>"

text \<open>
  The counters of \<open>PathFindingStats\<close>; \<open>timeElapsed\<close> (wall clock) and \<open>avgPathLength\<close>
  (a floating-point mean) are left out, no result depends on them.
\<close>

record PathFindingStats =
  tokensExplored :: nat
  pathsFound :: nat
  pathsPruned :: nat
  nodesVisited :: nat

definition zero_stats :: PathFindingStats where
  "zero_stats = \<lparr> tokensExplored = 0, pathsFound = 0, pathsPruned = 0, nodesVisited = 0 \<rparr>"

text \<open>
  What one \<open>dfs\<close> call can read and write: the shared \<open>visited\<close> set, the shared
  \<open>currentPath\<close> array, the \<open>cycles\<close> accumulator and \<open>this.stats\<close>.
\<close>

record ('pair, 'pool) dfs_state =
  visited :: "string set"
  currentPath :: "('pair, 'pool) GraphEdge list"
  cycles :: "('pair, 'pool) ArbitragePath list"
  stats :: PathFindingStats

subsection \<open>Helpers\<close>

text \<open>\<open>String.prototype.toLowerCase\<close> on ASCII text (token addresses are hex strings).\<close>

definition toLowerCase_char :: "char \<Rightarrow> char" where
  "toLowerCase_char c =
     (let n = (of_char c :: nat) in if 65 \<le> n \<and> n \<le> 90 then char_of (n + 32) else c)"

definition toLowerCase :: "string \<Rightarrow> string" where
  "toLowerCase s = map toLowerCase_char s"

text \<open>The body of the loop of \<open>convertToArbitragePath\<close> that builds one hop.\<close>

definition edge_to_hop :: "('pair, 'pool) GraphEdge \<Rightarrow> ('pair, 'pool) PathHop" where
  "edge_to_hop edge =
     (let hop = \<lparr> hop_kind = edge_kind edge, tokenIn = edge_from edge, tokenOut = edge_to edge,
                  hop_pair = None, hop_pool = None, hop_ticks = None \<rparr>
      in if edge_kind edge = V2 \<and> edge_pair edge \<noteq> None then hop\<lparr> hop_pair := edge_pair edge \<rparr>
         else if edge_kind edge = V3 \<and> edge_pool edge \<noteq> None
              then hop\<lparr> hop_pool := edge_pool edge, hop_ticks := Some [] \<rparr>
         else hop)"

fun convert_loop ::
  "('pair, 'pool) GraphEdge list \<Rightarrow> ('pair, 'pool) PathHop list \<Rightarrow> string list
     \<Rightarrow> ('pair, 'pool) ArbitragePath" where
  "convert_loop [] hs ts = \<lparr> hops = hs, tokenAddresses = ts \<rparr>"
| "convert_loop (edge # es) hs ts = convert_loop es (hs @ [edge_to_hop edge]) (ts @ [edge_to edge])"

definition convertToArbitragePath ::
  "('pair, 'pool) GraphEdge list \<Rightarrow> string \<Rightarrow> ('pair, 'pool) ArbitragePath" where
  "convertToArbitragePath edges startToken = convert_loop edges [] [startToken]"

fun estimate_loop :: "('pair, 'pool) GraphEdge list \<Rightarrow> int \<Rightarrow> int" where
  "estimate_loop [] tot = tot"
| "estimate_loop (edge # es) tot = estimate_loop es (tot + gasEstimate edge)"

definition estimatePathGas :: "('pair, 'pool) GraphEdge list \<Rightarrow> int" where
  "estimatePathGas edges = estimate_loop edges 200000 + 50000"

definition count_node :: "('pair, 'pool) dfs_state \<Rightarrow> ('pair, 'pool) dfs_state" where
  "count_node s = s\<lparr> stats := (stats s)\<lparr> nodesVisited := nodesVisited (stats s) + 1 \<rparr> \<rparr>"

definition count_pruned :: "('pair, 'pool) dfs_state \<Rightarrow> ('pair, 'pool) dfs_state" where
  "count_pruned s = s\<lparr> stats := (stats s)\<lparr> pathsPruned := pathsPruned (stats s) + 1 \<rparr> \<rparr>"

subsection \<open>The search\<close>

text \<open>
  \<open>dfs\<close> with the state threaded through; \<open>dfs_edges\<close> is its \<open>for (const edge of edges)\<close>
  loop. The order of the checks, the marking and unmarking of \<open>current\<close> and the push and
  pop of the edge are those of the source.
\<close>

function dfs ::
    "PathFinderConfig \<Rightarrow> ('pair, 'pool) LiquidityGraph \<Rightarrow> string \<Rightarrow> string \<Rightarrow> nat
       \<Rightarrow> ('pair, 'pool) dfs_state \<Rightarrow> ('pair, 'pool) dfs_state"
  and dfs_edges ::
    "PathFinderConfig \<Rightarrow> ('pair, 'pool) LiquidityGraph \<Rightarrow> string \<Rightarrow> nat
       \<Rightarrow> ('pair, 'pool) GraphEdge list \<Rightarrow> ('pair, 'pool) dfs_state \<Rightarrow> ('pair, 'pool) dfs_state"
where
  "dfs cfg g current start depth s0 =
     (let s = count_node s0 in
      if int depth > maxDepth cfg then count_pruned s
      else if int depth \<ge> minDepth cfg \<and> current = start \<and> length (currentPath s) > 0
        then s\<lparr> cycles := cycles s @ [convertToArbitragePath (currentPath s) start] \<rparr>
      else if depth > 0 \<and> current \<noteq> start \<and> current \<in> visited s then count_pruned s
      else
        let s1 = (if current \<noteq> start \<or> depth > 0
                  then s\<lparr> visited := insert current (visited s) \<rparr> else s);
            s2 = dfs_edges cfg g start depth (getOutgoingEdges g current) s1
        in if current \<noteq> start \<or> depth > 0
           then s2\<lparr> visited := visited s2 - {current} \<rparr> else s2)"
| "dfs_edges cfg g start depth [] s = s"
| "dfs_edges cfg g start depth (edge # es) s =
     dfs_edges cfg g start depth es
       (if enablePruning cfg \<and> effectiveLiquidity edge < minLiquidity cfg then count_pruned s
        else if enablePruning cfg \<and>
                estimatePathGas (currentPath s) + gasEstimate edge > maxGasEstimate cfg
          then count_pruned s
        else
          let s1 = s\<lparr> currentPath := currentPath s @ [edge] \<rparr>;
              s2 = dfs cfg g (edge_to edge) start (depth + 1) s1
          in s2\<lparr> currentPath := butlast (currentPath s2) \<rparr>)"
  by pat_completeness auto
termination
  by (relation "inv_image (less_than <*lex*> less_than)
        (\<lambda>x. case x of
            Inl (cfg, g, current, start, depth, s) \<Rightarrow> (2 * nat (maxDepth cfg - int depth + 1), 0)
          | Inr (cfg, g, start, depth, es, s) \<Rightarrow>
              (2 * nat (maxDepth cfg - int depth) + 1, length es))")
     auto

text \<open>
  \<open>findCycles\<close> returns the cycles; the statistics it updates are returned beside them
  (\<open>this.stats\<close> lives on across calls).
\<close>

definition findCycles ::
  "PathFinderConfig \<Rightarrow> ('pair, 'pool) LiquidityGraph \<Rightarrow> PathFindingStats \<Rightarrow> string
     \<Rightarrow> ('pair, 'pool) ArbitragePath list \<times> PathFindingStats" where
  "findCycles cfg g st startToken =
     (let start = toLowerCase startToken in
      if \<not> hasVertex g start then ([], st)
      else
        let s = dfs cfg g start start 0
                  \<lparr> visited = {}, currentPath = [], cycles = [], stats = st \<rparr>
        in (cycles s, stats s))"

text \<open>
  \<open>Array.prototype.splice(start)\<close> with one argument removes everything from the index
  \<open>start\<close> on; a negative \<open>start\<close> counts from the end.
\<close>

definition splice_from :: "'a list \<Rightarrow> int \<Rightarrow> 'a list" where
  "splice_from xs start =
     (let len = int (length xs);
          actualStart = (if start < 0 then max (len + start) 0 else min start len)
      in take (nat actualStart) xs)"

fun findAllCycles_loop ::
  "PathFinderConfig \<Rightarrow> ('pair, 'pool) LiquidityGraph \<Rightarrow> string list
     \<Rightarrow> ('pair, 'pool) ArbitragePath list \<Rightarrow> PathFindingStats
     \<Rightarrow> ('pair, 'pool) ArbitragePath list \<times> PathFindingStats" where
  "findAllCycles_loop cfg g [] allCycles st = (allCycles, st)"
| "findAllCycles_loop cfg g (token # tokens) allCycles st =
     (case findCycles cfg g st token of
        (found, st1) \<Rightarrow>
          let pushed = allCycles @ found;
              st2 = st1\<lparr> tokensExplored := tokensExplored st1 + 1 \<rparr>;
              limited =
                (if int (length found) > maxPathsPerToken cfg
                 then splice_from pushed
                        (int (length pushed) - int (length found) + maxPathsPerToken cfg)
                 else pushed)
          in findAllCycles_loop cfg g tokens limited st2)"

definition findAllCycles ::
  "PathFinderConfig \<Rightarrow> ('pair, 'pool) LiquidityGraph
     \<Rightarrow> ('pair, 'pool) ArbitragePath list \<times> PathFindingStats" where
  "findAllCycles cfg g =
     (case findAllCycles_loop cfg g (getTokenAddresses g) [] zero_stats of
        (allCycles, st) \<Rightarrow> (allCycles, st\<lparr> pathsFound := length allCycles \<rparr>))"

subsection \<open>Duplicate removal\<close>

text \<open>\<open>Array.prototype.join(sep)\<close> on strings.\<close>

fun join_with :: "string \<Rightarrow> string list \<Rightarrow> string" where
  "join_with sep [] = []"
| "join_with sep [x] = x"
| "join_with sep (x # y # ys) = x @ sep @ join_with sep (y # ys)"

definition getPathKey :: "('pair, 'pool) ArbitragePath \<Rightarrow> string" where
  "getPathKey path = join_with ''->'' (tokenAddresses path)"

fun removeDuplicates_loop ::
  "('pair, 'pool) ArbitragePath list \<Rightarrow> string set \<Rightarrow> ('pair, 'pool) ArbitragePath list
     \<Rightarrow> ('pair, 'pool) ArbitragePath list" where
  "removeDuplicates_loop [] seen unique = unique"
| "removeDuplicates_loop (path # paths) seen unique =
     (let key = getPathKey path in
      if key \<notin> seen then removeDuplicates_loop paths (insert key seen) (unique @ [path])
      else removeDuplicates_loop paths seen unique)"

definition removeDuplicates ::
  "('pair, 'pool) ArbitragePath list \<Rightarrow> ('pair, 'pool) ArbitragePath list" where
  "removeDuplicates paths = removeDuplicates_loop paths {} []"

subsection \<open>Properties of a returned path, and a bound on the search\<close>

text \<open>
  What the search guarantees of a path: the token sequence starts and ends with
  \<open>start\<close>, it is one longer than the hop list, the hop count is within the configured
  depths, and no token other than \<open>start\<close> occurs twice.
\<close>

definition is_cycle_through ::
  "PathFinderConfig \<Rightarrow> string \<Rightarrow> ('pair, 'pool) ArbitragePath \<Rightarrow> bool" where
  "is_cycle_through cfg start p =
     (tokenAddresses p \<noteq> [] \<and> hd (tokenAddresses p) = start \<and> last (tokenAddresses p) = start \<and>
      length (tokenAddresses p) = length (hops p) + 1 \<and>
      minDepth cfg \<le> int (length (tokenAddresses p)) - 1 \<and>
      int (length (tokenAddresses p)) - 1 \<le> maxDepth cfg \<and>
      distinct (filter (\<lambda>t. t \<noteq> start) (tokenAddresses p)))"

text \<open>A simple cycle, as the specification's data model has it: only the ends coincide.\<close>

definition is_simple_cycle :: "string list \<Rightarrow> bool" where
  "is_simple_cycle ts = (2 \<le> length ts \<and> hd ts = last ts \<and> distinct (butlast ts))"

text \<open>\<open>nodes_bound m n\<close> is \<open>1 + m + \<dots> + m ^ n\<close>: the nodes of a tree of branching \<open>m\<close> and height \<open>n\<close>.\<close>

fun nodes_bound :: "nat \<Rightarrow> nat \<Rightarrow> nat" where
  "nodes_bound m 0 = 1"
| "nodes_bound m (Suc n) = 1 + m * nodes_bound m n"

subsection \<open>Invariants of the search\<close>

text \<open>
  The targets of the edges on the current branch other than \<open>start\<close>, and the three
  predicates the correctness proof of \<open>dfs\<close> carries: what holds when \<open>dfs\<close> is entered,
  what holds when its loop is entered, and what a call leaves behind (the path restored,
  the visited set restored up to \<open>start\<close>, and only good cycles appended).
\<close>

definition nonstart_targets :: "string \<Rightarrow> ('pair, 'pool) GraphEdge list \<Rightarrow> string list" where
  "nonstart_targets start es = filter (\<lambda>t. t \<noteq> start) (map edge_to es)"

definition dfs_pre :: "string \<Rightarrow> string \<Rightarrow> nat \<Rightarrow> ('pair, 'pool) dfs_state \<Rightarrow> bool" where
  "dfs_pre start current depth s =
     (length (currentPath s) = depth \<and>
      (depth = 0 \<longrightarrow> current = start) \<and>
      (currentPath s \<noteq> [] \<longrightarrow> edge_to (last (currentPath s)) = current) \<and>
      distinct (nonstart_targets start (butlast (currentPath s))) \<and>
      visited s - {start} = set (nonstart_targets start (butlast (currentPath s))))"

definition edges_pre :: "string \<Rightarrow> nat \<Rightarrow> ('pair, 'pool) dfs_state \<Rightarrow> bool" where
  "edges_pre start depth s =
     (length (currentPath s) = depth \<and>
      distinct (nonstart_targets start (currentPath s)) \<and>
      visited s - {start} = set (nonstart_targets start (currentPath s)))"

definition dfs_frame ::
  "PathFinderConfig \<Rightarrow> string \<Rightarrow> ('pair, 'pool) dfs_state \<Rightarrow> ('pair, 'pool) dfs_state \<Rightarrow> bool" where
  "dfs_frame cfg start s s' =
     (currentPath s' = currentPath s \<and>
      visited s' - {start} = visited s - {start} \<and>
      (\<exists>new. cycles s' = cycles s @ new \<and> list_all (is_cycle_through cfg start) new))"

text \<open>
  For the case in which the cycles are simple: the start token has no edge to itself, the
  start token is not among the targets on the branch, and only simple cycles are appended.
\<close>

definition no_self_loop_at :: "('pair, 'pool) LiquidityGraph \<Rightarrow> string \<Rightarrow> bool" where
  "no_self_loop_at g start = list_all (\<lambda>e. edge_to e \<noteq> start) (getOutgoingEdges g start)"

definition simple_pre :: "string \<Rightarrow> string \<Rightarrow> nat \<Rightarrow> ('pair, 'pool) dfs_state \<Rightarrow> bool" where
  "simple_pre start current depth s =
     (start \<notin> set (map edge_to (butlast (currentPath s))) \<and> (depth = 1 \<longrightarrow> current \<noteq> start))"

definition simple_edges_pre ::
  "string \<Rightarrow> nat \<Rightarrow> ('pair, 'pool) GraphEdge list \<Rightarrow> ('pair, 'pool) dfs_state \<Rightarrow> bool" where
  "simple_edges_pre start depth es s =
     (start \<notin> set (map edge_to (currentPath s)) \<and>
      (depth = 0 \<longrightarrow> list_all (\<lambda>e. edge_to e \<noteq> start) es))"

definition adds_simple ::
  "('pair, 'pool) dfs_state \<Rightarrow> ('pair, 'pool) dfs_state \<Rightarrow> bool" where
  "adds_simple s s' =
     (\<exists>new. cycles s' = cycles s @ new \<and> list_all (\<lambda>p. is_simple_cycle (tokenAddresses p)) new)"

subsection \<open>Two small graphs\<close>

definition v2_edge :: "string \<Rightarrow> string \<Rightarrow> string \<Rightarrow> (string, string) GraphEdge" where
  "v2_edge a b pairAddress =
     \<lparr> edge_from = a, edge_to = b, edge_kind = V2, edge_pair = Some pairAddress,
       edge_pool = None, effectiveLiquidity = 10 ^ 12, gasEstimate = 110000 \<rparr>"

text \<open>Tokens \<open>s\<close>, \<open>a\<close>, \<open>b\<close> with one pool between \<open>s\<close> and each of the others.\<close>

definition star_graph :: "(string, string) LiquidityGraph" where
  "star_graph =
     \<lparr> hasVertex = (\<lambda>t. t \<in> set [''s'', ''a'', ''b'']),
       getOutgoingEdges = (\<lambda>t.
          if t = ''s'' then [v2_edge ''s'' ''a'' ''0xsa'', v2_edge ''s'' ''b'' ''0xsb'']
          else if t = ''a'' then [v2_edge ''a'' ''s'' ''0xsa'']
          else if t = ''b'' then [v2_edge ''b'' ''s'' ''0xsb'']
          else []),
       getTokenAddresses = [''s'', ''a'', ''b''] \<rparr>"

definition deep_config :: PathFinderConfig where
  "deep_config = DEFAULT_PATHFINDER_CONFIG\<lparr> minDepth := 3, maxDepth := 4 \<rparr>"

text \<open>Tokens \<open>a\<close>, \<open>b\<close> with two pools (two venues) between them.\<close>

definition parallel_graph :: "(string, string) LiquidityGraph" where
  "parallel_graph =
     \<lparr> hasVertex = (\<lambda>t. t \<in> set [''a'', ''b'']),
       getOutgoingEdges = (\<lambda>t.
          if t = ''a'' then [v2_edge ''a'' ''b'' ''0xp1'', v2_edge ''a'' ''b'' ''0xp2'']
          else if t = ''b'' then [v2_edge ''b'' ''a'' ''0xp1'', v2_edge ''b'' ''a'' ''0xp2'']
          else []),
       getTokenAddresses = [''a'', ''b''] \<rparr>"

section \<open>Constant-product output: theorems\<close>

lemmas sol_arith_defs =
  sol_bind_def checked_mul_def checked_add_def checked_sub_def checked_div_def UINT256_LIMIT_def

lemma div_le_div_cross:
  fixes n1 d1 n2 d2 :: nat
  assumes "0 < d1" "0 < d2" "n1 * d2 \<le> n2 * d1"
  shows "n1 div d1 \<le> n2 div d2"
proof -
  have "(n1 div d1) * d1 \<le> n1" by simp
  then have "((n1 div d1) * d1) * d2 \<le> n1 * d2" by (rule mult_le_mono1)
  then have "((n1 div d1) * d1) * d2 \<le> n2 * d1" using assms(3) by (rule le_trans)
  moreover have "((n1 div d1) * d1) * d2 = ((n1 div d1) * d2) * d1"
    by (simp only: mult.assoc mult.commute [of d1 d2])
  ultimately have "((n1 div d1) * d2) * d1 \<le> n2 * d1" by (simp only:)
  then have "(n1 div d1) * d2 \<le> n2" using assms(1) by (simp only: mult_le_cancel2)
  then show ?thesis using assms(2) by (simp only: less_eq_div_iff_mult_less_eq)
qed

lemma frac_mono:
  fixes a1 a2 g r c :: nat
  assumes "a1 \<le> a2" "0 < c"
  shows "(r * a1 * g) div (c + a1 * g) \<le> (r * a2 * g) div (c + a2 * g)"
proof (rule div_le_div_cross)
  show "0 < c + a1 * g" "0 < c + a2 * g" using assms by simp_all
  have "a1 * c \<le> a2 * c" using assms(1) by (rule mult_le_mono1)
  then have "(r * g) * (a1 * c) \<le> (r * g) * (a2 * c)" by (rule mult_le_mono2)
  then have "(r * g) * (a1 * c) + r * a1 * g * (a2 * g) \<le> (r * g) * (a2 * c) + r * a1 * g * (a2 * g)"
    by (rule add_le_mono1)
  moreover have "r * a1 * g * (c + a2 * g) = (r * g) * (a1 * c) + r * a1 * g * (a2 * g)"
    by (simp only: distrib_left mult.assoc mult.left_commute [of a1 g])
  moreover have "r * a2 * g * (c + a1 * g) = (r * g) * (a2 * c) + r * a1 * g * (a2 * g)"
    by (simp add: algebra_simps)
  ultimately show "r * a1 * g * (c + a2 * g) \<le> r * a2 * g * (c + a1 * g)"
    by (simp only:)
qed

lemma swap_invariant:
  fixes a g r x s :: nat
  assumes "0 < x" "g \<le> s" "0 < s"
  shows "(r * a * g) div (x * s + a * g) \<le> r \<and>
         x * r \<le> (x + a) * (r - (r * a * g) div (x * s + a * g))"
proof -
  define d where "d = x * s + a * g"
  define q where "q = (r * a * g) div d"
  have dpos: "0 < d" using assms by (simp add: d_def)
  have qd: "q * d \<le> r * a * g" by (simp add: q_def)
  have rag: "r * a * g \<le> r * d" by (simp add: d_def algebra_simps)
  from qd rag have "q * d \<le> r * d" by (rule le_trans)
  then have qr: "q \<le> r" using dpos by (simp only: mult_le_cancel2)
  have e1: "r * d - r * a * g = r * (x * s)" by (simp add: d_def algebra_simps)
  have e2: "r * d - q * d = (r - q) * d" by (simp only: diff_mult_distrib)
  have "r * d - r * a * g \<le> r * d - q * d" using qd by (rule diff_le_mono2)
  then have "r * (x * s) \<le> (r - q) * d" by (simp only: e1 e2)
  then have s1: "(x + a) * (r * (x * s)) \<le> (x + a) * ((r - q) * d)" by (rule mult_le_mono2)
  have "a * g \<le> a * s" using assms(2) by (rule mult_le_mono2)
  then have "x * s + a * g \<le> x * s + a * s" by (rule add_le_mono [OF le_refl])
  then have "(x * r) * (x * s + a * g) \<le> (x * r) * (x * s + a * s)" by (rule mult_le_mono2)
  moreover have "(x * r) * (x * s + a * s) = (x + a) * (r * (x * s))" by (simp add: algebra_simps)
  ultimately have s2: "(x * r) * d \<le> (x + a) * (r * (x * s))" by (simp only: d_def)
  from s2 s1 have "(x * r) * d \<le> (x + a) * ((r - q) * d)" by (rule le_trans)
  then have "(x * r) * d \<le> ((x + a) * (r - q)) * d" by (simp only: mult.assoc)
  then have "x * r \<le> (x + a) * (r - q)" using dpos by (simp only: mult_le_cancel2)
  with qr show ?thesis by (simp only: q_def d_def)
qed

lemma mult_less_limit_left:
  fixes a c L :: nat
  assumes "a * c < L" "0 < c"
  shows "a < L"
proof -
  from assms(2) have "1 \<le> c" by simp
  then have "a * 1 \<le> a * c" by (rule mult_le_mono2)
  then have "a \<le> a * c" by (simp only: mult_1_right)
  then show ?thesis using assms(1) by (rule le_less_trans)
qed

text \<open>When the on-chain function returns, and what.\<close>

lemma DexLibrary_getV2AmountOut_Inr_iff:
  "DexLibrary_getV2AmountOut a rI rO = Inr y \<longleftrightarrow>
     0 < a \<and> 0 < rI \<and> 0 < rO \<and> a * 997 * rO < 2 ^ 256 \<and> rI * 1000 + a * 997 < 2 ^ 256 \<and>
     y = (a * 997 * rO) div (rI * 1000 + a * 997)"
proof (cases "0 < a \<and> 0 < rI \<and> 0 < rO")
  case False
  then show ?thesis by (auto simp: DexLibrary_getV2AmountOut_def)
next
  case True
  show ?thesis
  proof (cases "a * 997 * rO < 2 ^ 256 \<and> rI * 1000 + a * 997 < 2 ^ 256")
    case ok: True
    then have "a * 997 < 2 ^ 256" "rI * 1000 < 2 ^ 256"
      using True mult_less_limit_left [of "a * 997" rO "2 ^ 256"] by simp_all
    with ok True show ?thesis
      by (auto simp: DexLibrary_getV2AmountOut_def sol_arith_defs
            V2_FEE_NUMERATOR_def V2_FEE_DENOMINATOR_def)
  next
    case bad: False
    with True show ?thesis
      by (auto simp: DexLibrary_getV2AmountOut_def sol_arith_defs
            V2_FEE_NUMERATOR_def V2_FEE_DENOMINATOR_def split: if_splits)
  qed
qed

lemma FlashArbitrage_getV2AmountOut_Inr_iff:
  "FlashArbitrage_getV2AmountOut a rI rO = Inr y \<longleftrightarrow> DexLibrary_getV2AmountOut a rI rO = Inr y"
  by (auto simp: FlashArbitrage_getV2AmountOut_def DexLibrary_getV2AmountOut_def
        V2_FEE_NUMERATOR_def V2_FEE_DENOMINATOR_def)

lemma executeV2Swap_amountOut_Inr:
  "executeV2Swap_amountOut a rI rO = Inr y \<Longrightarrow>
     y = (a * 997 * rO) div (rI * 1000 + a * 997) \<and> 0 < y"
  by (auto simp: executeV2Swap_amountOut_def sol_arith_defs split: if_splits)

lemma spec_v2_amountOut_30:
  "spec_v2_amountOut 30 a rI rO = (a * 997 * rO) div (rI * 1000 + a * 997)"
proof -
  have e: "(10000::nat) - 30 = 9970" by simp
  have n: "rO * a * 9970 = 10 * (a * 997 * rO)" by simp
  have d: "rI * 10000 + a * 9970 = 10 * (rI * 1000 + a * 997)" by simp
  have "spec_v2_amountOut 30 a rI rO = (rO * a * 9970) div (rI * 10000 + a * 9970)"
    by (simp only: spec_v2_amountOut_def e)
  also have "\<dots> = (10 * (a * 997 * rO)) div (10 * (rI * 1000 + a * 997))"
    by (simp only: n d)
  also have "\<dots> = (a * 997 * rO) div (rI * 1000 + a * 997)"
    by (rule div_mult_mult1) simp
  finally show ?thesis .
qed

text \<open>
  Claim C1, as the contracts have it. For a positive input and positive reserves whose
  products fit in a \<open>uint256\<close>, \<open>DexLibrary.getV2AmountOut\<close>, \<open>DexLibrary.simulateV2Swap\<close>
  and \<open>FlashArbitrage.getV2AmountOut\<close> return the floor of
  \<open>reserveOut * amountIn * (10000 - feeBps) / (reserveIn * 10000 + amountIn * (10000 - feeBps))\<close>
  at \<open>feeBps = 30\<close>. None of them takes a fee: the factor 997/1000 is built in.
\<close>

theorem getV2AmountOut_fixed_30bps:
  assumes "0 < amountIn" "0 < reserveIn" "0 < reserveOut"
    and "amountIn * 997 * reserveOut < 2 ^ 256"
    and "reserveIn * 1000 + amountIn * 997 < 2 ^ 256"
  shows "DexLibrary_getV2AmountOut amountIn reserveIn reserveOut =
           Inr (spec_v2_amountOut 30 amountIn reserveIn reserveOut) \<and>
         simulateV2Swap reserveIn reserveOut amountIn =
           Inr (spec_v2_amountOut 30 amountIn reserveIn reserveOut) \<and>
         FlashArbitrage_getV2AmountOut amountIn reserveIn reserveOut =
           Inr (spec_v2_amountOut 30 amountIn reserveIn reserveOut)"
  using assms
  by (simp only: simulateV2Swap_def FlashArbitrage_getV2AmountOut_Inr_iff
        DexLibrary_getV2AmountOut_Inr_iff spec_v2_amountOut_30)

text \<open>The theorem of C1 at input 1000 and reserves (1000; 1,000,000).\<close>

theorem getV2AmountOut_fixed_30bps_witness:
  "DexLibrary_getV2AmountOut 1000 1000 1000000 = Inr (spec_v2_amountOut 30 1000 1000 1000000) \<and>
   simulateV2Swap 1000 1000000 1000 = Inr (spec_v2_amountOut 30 1000 1000 1000000) \<and>
   FlashArbitrage_getV2AmountOut 1000 1000 1000000 = Inr (spec_v2_amountOut 30 1000 1000 1000000)"
  using getV2AmountOut_fixed_30bps [of 1000 1000 1000000] by simp

text \<open>
  Claim C1 as stated, for every fee: at \<open>feeBps = 25\<close> (the fee of one of the configured
  venues) the formula gives 499,374 for input 1000 and reserves (1000; 1,000,000), and
  the contract functions return 499,248.
\<close>

theorem getV2AmountOut_ignores_fee_counterexample:
  "DexLibrary_getV2AmountOut 1000 1000 1000000 = Inr 499248 \<and>
   simulateV2Swap 1000 1000000 1000 = Inr 499248 \<and>
   FlashArbitrage_getV2AmountOut 1000 1000 1000000 = Inr 499248 \<and>
   spec_v2_amountOut 25 1000 1000 1000000 = 499374"
  by (simp add: simulateV2Swap_def FlashArbitrage_getV2AmountOut_Inr_iff
        DexLibrary_getV2AmountOut_Inr_iff spec_v2_amountOut_def)

text \<open>
  Claim C2 states 498,502,246,382,822 for reserves (1,000,000; 500,000,000,000,000,000),
  a fee of 30 bps and an input of 1,000,000. The formula, and both contract functions,
  give another number there.
\<close>

theorem scenario_1_output_counterexample:
  "spec_v2_amountOut 30 1000000 1000000 500000000000000000 \<noteq> 498502246382822 \<and>
   DexLibrary_getV2AmountOut 1000000 1000000 500000000000000000 \<noteq> Inr 498502246382822 \<and>
   FlashArbitrage_getV2AmountOut 1000000 1000000 500000000000000000 \<noteq> Inr 498502246382822"
  by (simp add: FlashArbitrage_getV2AmountOut_Inr_iff DexLibrary_getV2AmountOut_Inr_iff
        spec_v2_amountOut_def)

text \<open>
  Claim C2, amended: at that input the formula with \<open>feeBps = 30\<close> and both contract
  functions give 249,624,436,654,982,473.
\<close>

theorem scenario_1_output:
  "spec_v2_amountOut 30 1000000 1000000 500000000000000000 = 249624436654982473 \<and>
   DexLibrary_getV2AmountOut 1000000 1000000 500000000000000000 = Inr 249624436654982473 \<and>
   FlashArbitrage_getV2AmountOut 1000000 1000000 500000000000000000 = Inr 249624436654982473"
  by (simp add: FlashArbitrage_getV2AmountOut_Inr_iff DexLibrary_getV2AmountOut_Inr_iff
        spec_v2_amountOut_def)

lemma spec_v2_amountOut_mono:
  assumes "0 < reserveIn" "a1 \<le> a2"
  shows "spec_v2_amountOut feeBps a1 reserveIn reserveOut \<le> spec_v2_amountOut feeBps a2 reserveIn reserveOut"
  unfolding spec_v2_amountOut_def
  using frac_mono [of a1 a2 "reserveIn * 10000" reserveOut "10000 - feeBps"] assms
  by simp

text \<open>
  Claim C4 asks for a strictly increasing output. The floor makes the output constant
  over runs of inputs: with reserves (2,000,000; 1,000,000) the inputs 1000 and 1001
  both yield 498.
\<close>

theorem v2_amountOut_plateau_counterexample:
  "DexLibrary_getV2AmountOut 1000 2000000 1000000 = Inr 498 \<and>
   DexLibrary_getV2AmountOut 1001 2000000 1000000 = Inr 498 \<and>
   spec_v2_amountOut 30 1000 2000000 1000000 = 498 \<and>
   spec_v2_amountOut 30 1001 2000000 1000000 = 498"
  by (simp add: DexLibrary_getV2AmountOut_Inr_iff spec_v2_amountOut_def)

text \<open>
  Claim C4, amended: the output is non-decreasing in the input. For the formula this holds
  at every fee and positive \<open>reserveIn\<close>; for \<open>DexLibrary.getV2AmountOut\<close>, whenever the
  call with the larger input returns, the call with the smaller positive input returns
  too, and no more.
\<close>

theorem v2_amountOut_nondecreasing:
  assumes "0 < a1" "a1 \<le> a2"
  shows "(0 < reserveIn \<longrightarrow>
            spec_v2_amountOut feeBps a1 reserveIn reserveOut
              \<le> spec_v2_amountOut feeBps a2 reserveIn reserveOut) \<and>
         (\<forall>y2. DexLibrary_getV2AmountOut a2 reserveIn reserveOut = Inr y2 \<longrightarrow>
            (\<exists>y1. DexLibrary_getV2AmountOut a1 reserveIn reserveOut = Inr y1 \<and> y1 \<le> y2))"
proof (intro conjI impI allI)
  assume "0 < reserveIn"
  then show "spec_v2_amountOut feeBps a1 reserveIn reserveOut
              \<le> spec_v2_amountOut feeBps a2 reserveIn reserveOut"
    using assms(2) by (rule spec_v2_amountOut_mono)
next
  fix y2
  assume r2: "DexLibrary_getV2AmountOut a2 reserveIn reserveOut = Inr y2"
  then have pos: "0 < reserveIn" "0 < reserveOut"
    and n2: "a2 * 997 * reserveOut < 2 ^ 256"
    and d2: "reserveIn * 1000 + a2 * 997 < 2 ^ 256"
    and y2: "y2 = (a2 * 997 * reserveOut) div (reserveIn * 1000 + a2 * 997)"
    by (simp_all add: DexLibrary_getV2AmountOut_Inr_iff)
  have "a1 * 997 \<le> a2 * 997" using assms(2) by (rule mult_le_mono1)
  then have "a1 * 997 * reserveOut \<le> a2 * 997 * reserveOut"
    and "reserveIn * 1000 + a1 * 997 \<le> reserveIn * 1000 + a2 * 997"
    by (simp_all only: mult_le_mono1 add_le_mono [OF le_refl])
  with n2 d2 have n1: "a1 * 997 * reserveOut < 2 ^ 256"
    and d1: "reserveIn * 1000 + a1 * 997 < 2 ^ 256"
    by (simp_all only: le_less_trans)
  let ?y1 = "(a1 * 997 * reserveOut) div (reserveIn * 1000 + a1 * 997)"
  have r1: "DexLibrary_getV2AmountOut a1 reserveIn reserveOut = Inr ?y1"
    using assms(1) pos n1 d1 by (simp only: DexLibrary_getV2AmountOut_Inr_iff)
  have "(reserveOut * a1 * 997) div (reserveIn * 1000 + a1 * 997)
          \<le> (reserveOut * a2 * 997) div (reserveIn * 1000 + a2 * 997)"
    using assms(2) pos(1) by (intro frac_mono) simp_all
  moreover have "reserveOut * a1 * 997 = a1 * 997 * reserveOut"
    and "reserveOut * a2 * 997 = a2 * 997 * reserveOut" by (simp_all add: mult_ac)
  ultimately have "?y1 \<le> y2" by (simp only: y2)
  with r1 show "\<exists>y1. DexLibrary_getV2AmountOut a1 reserveIn reserveOut = Inr y1 \<and> y1 \<le> y2"
    by blast
qed

text \<open>The amended C4 at inputs 1000 and 5000 with reserves (2,000,000; 1,000,000).\<close>

theorem v2_amountOut_nondecreasing_witness:
  "spec_v2_amountOut 30 1000 2000000 1000000 \<le> spec_v2_amountOut 30 5000 2000000 1000000 \<and>
   DexLibrary_getV2AmountOut 5000 2000000 1000000 = Inr 2486 \<and>
   (\<exists>y1. DexLibrary_getV2AmountOut 1000 2000000 1000000 = Inr y1 \<and> y1 \<le> 2486)"
proof -
  have r: "DexLibrary_getV2AmountOut 5000 2000000 1000000 = Inr 2486"
    by (simp add: DexLibrary_getV2AmountOut_Inr_iff)
  from v2_amountOut_nondecreasing [of 1000 5000 2000000 30 1000000] r
  show ?thesis by simp
qed

lemma spec_v2_amountOut_invariant:
  assumes "0 < reserveIn"
  shows "spec_v2_amountOut feeBps amountIn reserveIn reserveOut \<le> reserveOut \<and>
         reserveIn * reserveOut
           \<le> (reserveIn + amountIn) *
              (reserveOut - spec_v2_amountOut feeBps amountIn reserveIn reserveOut)"
  unfolding spec_v2_amountOut_def
  using swap_invariant [of reserveIn "10000 - feeBps" 10000 reserveOut amountIn] assms
  by simp

lemma v2_quotient_less_reserveOut:
  fixes a rI rO :: nat
  assumes "0 < rI" "0 < rO"
  shows "(a * 997 * rO) div (rI * 1000 + a * 997) < rO"
proof -
  have "0 < rO * (rI * 1000)" using assms by simp
  then have "a * 997 * rO < rO * (rI * 1000) + a * 997 * rO" by simp
  also have "\<dots> = rO * (rI * 1000 + a * 997)" by (simp add: algebra_simps)
  finally have "a * 997 * rO < rO * (rI * 1000 + a * 997)" .
  moreover have "0 < rI * 1000 + a * 997" using assms(1) by simp
  ultimately show ?thesis by (simp only: div_less_iff_less_mult)
qed

text \<open>
  Claim C5: after a swap with a positive input against a positive input reserve, the
  product of the reserves has not decreased,
  \<open>reserveIn * reserveOut \<le> (reserveIn + amountIn) * (reserveOut - amountOut)\<close>. It holds
  for the specification's formula at every fee, and for every output that
  \<open>DexLibrary.getV2AmountOut\<close>, \<open>FlashArbitrage.getV2AmountOut\<close> or the inline computation of
  \<open>_executeV2Swap\<close> returns; the output is then also below \<open>reserveOut\<close>, so the
  subtraction is exact.
\<close>

theorem v2_swap_invariant_preserved:
  assumes "0 < amountIn" "0 < reserveIn"
  shows "(spec_v2_amountOut feeBps amountIn reserveIn reserveOut \<le> reserveOut \<and>
          reserveIn * reserveOut
            \<le> (reserveIn + amountIn) *
               (reserveOut - spec_v2_amountOut feeBps amountIn reserveIn reserveOut)) \<and>
         (\<forall>amountOut.
            DexLibrary_getV2AmountOut amountIn reserveIn reserveOut = Inr amountOut \<or>
            FlashArbitrage_getV2AmountOut amountIn reserveIn reserveOut = Inr amountOut \<or>
            executeV2Swap_amountOut amountIn reserveIn reserveOut = Inr amountOut \<longrightarrow>
            amountOut < reserveOut \<and>
            reserveIn * reserveOut \<le> (reserveIn + amountIn) * (reserveOut - amountOut))"
proof -
  have spec: "spec_v2_amountOut feeBps amountIn reserveIn reserveOut \<le> reserveOut \<and>
          reserveIn * reserveOut
            \<le> (reserveIn + amountIn) *
               (reserveOut - spec_v2_amountOut feeBps amountIn reserveIn reserveOut)"
    using assms(2) by (rule spec_v2_amountOut_invariant)
  have code: "amountOut < reserveOut \<and>
            reserveIn * reserveOut \<le> (reserveIn + amountIn) * (reserveOut - amountOut)"
    if ret: "DexLibrary_getV2AmountOut amountIn reserveIn reserveOut = Inr amountOut \<or>
          FlashArbitrage_getV2AmountOut amountIn reserveIn reserveOut = Inr amountOut \<or>
          executeV2Swap_amountOut amountIn reserveIn reserveOut = Inr amountOut"
    for amountOut
  proof -
    from ret have q: "amountOut = (amountIn * 997 * reserveOut) div (reserveIn * 1000 + amountIn * 997)"
      by (auto simp: FlashArbitrage_getV2AmountOut_Inr_iff DexLibrary_getV2AmountOut_Inr_iff
            dest: executeV2Swap_amountOut_Inr)
    from ret have "0 < reserveOut"
      by (auto simp: FlashArbitrage_getV2AmountOut_Inr_iff DexLibrary_getV2AmountOut_Inr_iff
            dest!: executeV2Swap_amountOut_Inr intro: gr0I)
    with assms(2) have less: "amountOut < reserveOut"
      unfolding q by (rule v2_quotient_less_reserveOut)
    from q have out: "amountOut = spec_v2_amountOut 30 amountIn reserveIn reserveOut"
      by (simp only: spec_v2_amountOut_30)
    have "reserveIn * reserveOut \<le> (reserveIn + amountIn) * (reserveOut - amountOut)"
      unfolding out using spec_v2_amountOut_invariant [OF assms(2)] by blast
    with less show ?thesis by blast
  qed
  from spec code show ?thesis by blast
qed

text \<open>C5 at input 1000 with reserves (2,000,000; 1,000,000), fee 25 bps for the formula.\<close>

theorem v2_swap_invariant_preserved_witness:
  "DexLibrary_getV2AmountOut 1000 2000000 1000000 = Inr 498 \<and>
   (498::nat) < 1000000 \<and>
   (2000000::nat) * 1000000 \<le> (2000000 + 1000) * (1000000 - 498) \<and>
   2000000 * 1000000
     \<le> (2000000 + 1000) * (1000000 - spec_v2_amountOut 25 1000 2000000 1000000)"
proof -
  have r: "DexLibrary_getV2AmountOut 1000 2000000 1000000 = Inr 498"
    by (simp add: DexLibrary_getV2AmountOut_Inr_iff)
  from v2_swap_invariant_preserved [of 1000 2000000 25 1000000] r
  show ?thesis by simp
qed

section \<open>Flash-loan debt and profit checks: theorems\<close>

lemma ProfitCalculator_calculateDebt_nonneg:
  assumes "0 \<le> L"
  shows "ProfitCalculator_calculateDebt L = (L * 10009) div 10000"
proof -
  have trunc: "k sdiv 10000 = k div 10000" if "0 \<le> k" for k :: int
    using that by (cases "k = 0") (simp_all add: signed_divide_int_def)
  have "0 \<le> L * 10009" using assms by simp
  then show ?thesis
    unfolding ProfitCalculator_calculateDebt_def FLASH_LOAN_FEE_FACTOR_def by (rule trunc)
qed

lemma ProfitChecker_calculateDebt_eq:
  "ProfitChecker_calculateDebt p =
     (if p * 10009 < 2 ^ 256 then Inr (p * 10009 div 10000) else Inl PanicOverflow)"
  by (simp add: ProfitChecker_calculateDebt_def sol_arith_defs BPS_DENOMINATOR_def
        FLASH_LOAN_FEE_BPS_def)

text \<open>
  The on-chain \<open>ProfitChecker.calculateDebt\<close> agrees with the bot's \<open>calculateDebt\<close> as long
  as \<open>principal * 10009\<close> fits in a \<open>uint256\<close>.
\<close>

lemma ProfitChecker_calculateDebt_agrees:
  assumes "p * 10009 < 2 ^ 256"
  shows "ProfitChecker_calculateDebt p = Inr (nat (ProfitCalculator_calculateDebt (int p)))"
proof -
  have "ProfitCalculator_calculateDebt (int p) = int (p * 10009 div 10000)"
    by (simp add: ProfitCalculator_calculateDebt_nonneg zdiv_int)
  then show ?thesis using assms by (simp add: ProfitChecker_calculateDebt_eq)
qed

text \<open>
  Claim C6 says that \<open>calculateDebt L\<close> is the floor of \<open>L * 10009 / 10000\<close> for every loan
  amount \<open>L \<ge> 0\<close>. The on-chain \<open>ProfitChecker.calculateDebt\<close> multiplies first, checked: at
  the principal \<open>2 ^ 256 div 10009 + 1\<close>, a \<open>uint256\<close>, it reverts and computes no debt,
  while the bot's \<open>calculateDebt\<close> on bigints gives the floor there.
\<close>

theorem ProfitChecker_calculateDebt_overflow_counterexample:
  "ProfitChecker_calculateDebt (2 ^ 256 div 10009 + 1) = Inl PanicOverflow \<and>
   is_uint256 (2 ^ 256 div 10009 + 1) \<and>
   ProfitCalculator_calculateDebt (2 ^ 256 div 10009 + 1)
     = ((2 ^ 256 div 10009 + 1) * 10009) div 10000"
  by (simp add: ProfitChecker_calculateDebt_eq is_uint256_def UINT256_LIMIT_def
        ProfitCalculator_calculateDebt_nonneg)

text \<open>
  Claim C6, amended. Under the built-in fee of 9 basis points: for every loan amount
  \<open>L \<ge> 0\<close> the bot's \<open>ProfitCalculator.calculateDebt L\<close> is the floor of \<open>L * 10009 / 10000\<close>
  and at least \<open>L\<close>; the on-chain \<open>ProfitChecker.calculateDebt principal\<close> returns the floor of
  \<open>principal * 10009 / 10000\<close>, at least \<open>principal\<close>, whenever
  \<open>principal * 10009 < 2 ^ 256\<close>, and reverts with an overflow panic otherwise. Neither
  function takes a fee.
\<close>

theorem calculateDebt_correct:
  "(0 \<le> L \<longrightarrow>
      ProfitCalculator_calculateDebt L = (L * 10009) div 10000 \<and>
      L \<le> ProfitCalculator_calculateDebt L) \<and>
   (loanPrincipal * 10009 < 2 ^ 256 \<longrightarrow>
      ProfitChecker_calculateDebt loanPrincipal = Inr (loanPrincipal * 10009 div 10000) \<and>
      loanPrincipal \<le> loanPrincipal * 10009 div 10000) \<and>
   (2 ^ 256 \<le> loanPrincipal * 10009 \<longrightarrow>
      ProfitChecker_calculateDebt loanPrincipal = Inl PanicOverflow)"
proof -
  have ts: "L \<le> (L * 10009) div 10000" if "0 \<le> L"
  proof -
    have "L * 10000 \<le> L * 10009" using that by (intro mult_left_mono) simp_all
    then have "(L * 10000) div 10000 \<le> (L * 10009) div 10000"
      by (rule zdiv_mono1) simp
    then show ?thesis by simp
  qed
  have sol: "loanPrincipal \<le> loanPrincipal * 10009 div 10000"
  proof -
    have "loanPrincipal * 10000 \<le> loanPrincipal * 10009" by simp
    then have "(loanPrincipal * 10000) div 10000 \<le> (loanPrincipal * 10009) div 10000"
      by (rule div_le_mono)
    then show ?thesis by simp
  qed
  from ts sol show ?thesis
    by (simp add: ProfitCalculator_calculateDebt_nonneg ProfitChecker_calculateDebt_eq)
qed

text \<open>The amended C6 at \<open>L = 12345\<close> for both functions, and at an overflowing principal.\<close>

theorem calculateDebt_correct_witness:
  "ProfitCalculator_calculateDebt 12345 = 12356 \<and>
   (12345::int) \<le> ProfitCalculator_calculateDebt 12345 \<and>
   ProfitChecker_calculateDebt 12345 = Inr 12356 \<and>
   ProfitChecker_calculateDebt (2 ^ 256 - 1) = Inl PanicOverflow"
  using calculateDebt_correct [of 12345 12345] calculateDebt_correct [of 0 "2 ^ 256 - 1"]
  by simp

lemma meetsThreshold_eq:
  "meetsThreshold net minThreshold =
     (if minThreshold * 10500 < 2 ^ 256 then Inr (minThreshold * 10500 div 10000 \<le> net)
      else Inl PanicOverflow)"
  by (simp add: meetsThreshold_def sol_arith_defs BPS_DENOMINATOR_def SAFETY_MARGIN_BPS_def)

text \<open>
  Claim C9 says that \<open>meetsThreshold\<close> returns true exactly when
  \<open>netProfit \<ge> floor(minThreshold * 10500 / 10000)\<close>, for every pair of arguments. The
  multiplication is checked: for a threshold of \<open>2 ^ 256 div 10500 + 1\<close> the call reverts,
  although the net profit \<open>2 ^ 256 - 1\<close> is above the inflated threshold.
\<close>

theorem meetsThreshold_overflow_counterexample:
  "meetsThreshold (2 ^ 256 - 1) (2 ^ 256 div 10500 + 1) = Inl PanicOverflow \<and>
   ((2 ^ 256 div 10500 + 1) * 10500) div 10000 \<le> (2 ^ 256 - 1 :: nat) \<and>
   is_uint256 (2 ^ 256 - 1) \<and> is_uint256 (2 ^ 256 div 10500 + 1)"
  by (simp add: meetsThreshold_eq is_uint256_def UINT256_LIMIT_def)

text \<open>
  Claim C9, amended: whenever \<open>minThreshold * 10500 < 2 ^ 256\<close>, \<open>meetsThreshold\<close> returns
  whether \<open>netProfit \<ge> floor(minThreshold * 10500 / 10000)\<close>, the threshold inflated by
  5%; for a larger threshold it reverts with an overflow panic. \<open>isProfitable\<close> applies this
  test to the net profit of \<open>calculateNetProfit\<close>.
\<close>

theorem meetsThreshold_safety_margin:
  "(minThreshold * 10500 < 2 ^ 256 \<longrightarrow>
      meetsThreshold net minThreshold = Inr (minThreshold * 10500 div 10000 \<le> net)) \<and>
   (2 ^ 256 \<le> minThreshold * 10500 \<longrightarrow>
      meetsThreshold net minThreshold = Inl PanicOverflow) \<and>
   (\<forall>ok breakdown.
      isProfitable finalBalance loanPrincipal gasUnits gasPriceWei ethPriceInAsset minThreshold
        = Inr (ok, breakdown) \<longrightarrow>
      calculateNetProfit finalBalance loanPrincipal gasUnits gasPriceWei ethPriceInAsset
        = Inr breakdown \<and>
      ok = (minThreshold * 10500 div 10000 \<le> netProfit breakdown))"
  by (auto simp: meetsThreshold_eq isProfitable_def sol_bind_def split: sum.splits if_splits)

text \<open>The amended C9 on both sides of the inflated threshold 1050, and at an overflow.\<close>

theorem meetsThreshold_safety_margin_witness:
  "meetsThreshold 1049 1000 = Inr False \<and> meetsThreshold 1050 1000 = Inr True \<and>
   meetsThreshold 0 (2 ^ 256 - 1) = Inl PanicOverflow"
  using meetsThreshold_safety_margin [of 1000 1049] meetsThreshold_safety_margin [of 1000 1050]
    meetsThreshold_safety_margin [of "2 ^ 256 - 1" 0]
  by simp

lemma calculateGasCost_eq:
  "calculateGasCost gu gp ep =
     (if gu * gp < 2 ^ 256 \<and> gu * gp * ep < 2 ^ 256 then Inr (gu * gp * ep div 10 ^ 18)
      else Inl PanicOverflow)"
  by (simp add: calculateGasCost_def sol_arith_defs)

text \<open>
  Claim C10: \<open>calculateNetProfit\<close> never fails in a subtraction, and whenever it returns,
  the net profit is \<open>finalBalance - debt - gasCost\<close> if
  \<open>finalBalance \<ge> debt + gasCost\<close> and 0 otherwise (a \<open>uint256\<close>, so never negative),
  with \<open>debt = floor(principal * 10009 / 10000)\<close> and
  \<open>gasCost = floor(gasUnits * gasPriceWei * ethPriceInAsset / 10 ^ 18)\<close>. It returns
  whenever these products and \<open>debt + gasCost\<close> fit in a \<open>uint256\<close>.
\<close>

theorem calculateNetProfit_clamped:
  "calculateNetProfit finalBalance loanPrincipal gasUnits gasPriceWei ethPriceInAsset
     \<noteq> Inl PanicUnderflow \<and>
   (\<forall>b. calculateNetProfit finalBalance loanPrincipal gasUnits gasPriceWei ethPriceInAsset = Inr b \<longrightarrow>
      grossProfit b = finalBalance \<and>
      flashLoanDebt b = loanPrincipal * 10009 div 10000 \<and>
      gasCost b = gasUnits * gasPriceWei * ethPriceInAsset div 10 ^ 18 \<and>
      netProfit b =
        (if flashLoanDebt b + gasCost b \<le> finalBalance
         then finalBalance - flashLoanDebt b - gasCost b else 0)) \<and>
   (loanPrincipal * 10009 < 2 ^ 256 \<and> gasUnits * gasPriceWei < 2 ^ 256 \<and>
    gasUnits * gasPriceWei * ethPriceInAsset < 2 ^ 256 \<and>
    loanPrincipal * 10009 div 10000 + gasUnits * gasPriceWei * ethPriceInAsset div 10 ^ 18 < 2 ^ 256
    \<longrightarrow> (\<exists>b. calculateNetProfit finalBalance loanPrincipal gasUnits gasPriceWei ethPriceInAsset = Inr b))"
  by (auto simp: calculateNetProfit_def ProfitChecker_calculateDebt_eq calculateGasCost_eq
        sol_bind_def checked_add_def checked_sub_def UINT256_LIMIT_def Let_def
      split: sum.splits if_splits)

text \<open>C10 at a profitable and at a losing final balance (debt 1000, gas cost 100).\<close>

theorem calculateNetProfit_clamped_witness:
  "(\<exists>b. calculateNetProfit 2000 1000 100 10 (10 ^ 17) = Inr b \<and> netProfit b = 900) \<and>
   (\<exists>b. calculateNetProfit 1000 1000 100 10 (10 ^ 17) = Inr b \<and> netProfit b = 0)"
proof -
  from calculateNetProfit_clamped [of 2000 1000 100 10 "10 ^ 17"]
  have a: "\<exists>b. calculateNetProfit 2000 1000 100 10 (10 ^ 17) = Inr b \<and> netProfit b = 900"
    by auto
  from calculateNetProfit_clamped [of 1000 1000 100 10 "10 ^ 17"]
  have b: "\<exists>b. calculateNetProfit 1000 1000 100 10 (10 ^ 17) = Inr b \<and> netProfit b = 0"
    by auto
  from a b show ?thesis by blast
qed

section \<open>PathFinder: theorems\<close>

text \<open>
  The equation of \<open>dfs\<close> is taken out of the simplifier and unfolded one branch at a time.
\<close>

declare dfs.simps [simp del]

lemma convert_loop_fields:
  "tokenAddresses (convert_loop es hs ts) = ts @ map edge_to es"
  "hops (convert_loop es hs ts) = hs @ map edge_to_hop es"
  by (induction es arbitrary: hs ts) simp_all

lemma convertToArbitragePath_fields:
  "tokenAddresses (convertToArbitragePath es start) = start # map edge_to es"
  "hops (convertToArbitragePath es start) = map edge_to_hop es"
  by (simp_all add: convertToArbitragePath_def convert_loop_fields)

lemma count_fields [simp]:
  "visited (count_node s) = visited s" "currentPath (count_node s) = currentPath s"
  "cycles (count_node s) = cycles s"
  "visited (count_pruned s) = visited s" "currentPath (count_pruned s) = currentPath s"
  "cycles (count_pruned s) = cycles s"
  by (simp_all add: count_node_def count_pruned_def)

lemma nonstart_targets_snoc:
  "nonstart_targets start (es @ [e]) =
     nonstart_targets start es @ (if edge_to e \<noteq> start then [edge_to e] else [])"
  by (simp add: nonstart_targets_def)

lemma nonstart_targets_Nil [simp]: "nonstart_targets start [] = []"
  by (simp add: nonstart_targets_def)

lemma dfs_frame_refl: "dfs_frame cfg start s s"
  by (simp add: dfs_frame_def)

lemma dfs_frame_trans:
  assumes "dfs_frame cfg start s s'" "dfs_frame cfg start s' s''"
  shows "dfs_frame cfg start s s''"
proof -
  from assms(1) obtain n1 where n1: "cycles s' = cycles s @ n1" "list_all (is_cycle_through cfg start) n1"
    by (auto simp: dfs_frame_def)
  from assms(2) obtain n2 where n2: "cycles s'' = cycles s' @ n2" "list_all (is_cycle_through cfg start) n2"
    by (auto simp: dfs_frame_def)
  have "cycles s'' = cycles s @ (n1 @ n2)" "list_all (is_cycle_through cfg start) (n1 @ n2)"
    using n1 n2 by simp_all
  then have "\<exists>new. cycles s'' = cycles s @ new \<and> list_all (is_cycle_through cfg start) new"
    by blast
  with assms show ?thesis by (simp add: dfs_frame_def)
qed

lemma dfs_frame_count:
  "dfs_frame cfg start s (count_node s)" "dfs_frame cfg start s (count_pruned s)"
  by (simp_all add: dfs_frame_def)

lemma edges_pre_frame:
  assumes "edges_pre start depth s" "dfs_frame cfg start s s'"
  shows "edges_pre start depth s'"
  using assms by (simp add: edges_pre_def dfs_frame_def)

lemma dfs_pre_count [simp]: "dfs_pre start current depth (count_node s) = dfs_pre start current depth s"
  by (simp add: dfs_pre_def)

lemma recorded_cycle_ok:
  assumes pre: "dfs_pre start current depth s"
    and cur: "current = start" and ne: "currentPath s \<noteq> []"
    and lo: "minDepth cfg \<le> int depth" and hi: "int depth \<le> maxDepth cfg"
  shows "is_cycle_through cfg start (convertToArbitragePath (currentPath s) start)"
proof -
  let ?p = "currentPath s"
  from ne have split: "?p = butlast ?p @ [last ?p]" by simp
  from pre ne cur have tgt: "edge_to (last ?p) = start" by (simp add: dfs_pre_def)
  from pre have len: "length ?p = depth" by (simp add: dfs_pre_def)
  have "nonstart_targets start ?p = nonstart_targets start (butlast ?p @ [last ?p])"
    using split by simp
  also have "\<dots> = nonstart_targets start (butlast ?p)"
    using tgt by (simp only: nonstart_targets_snoc) simp
  finally have "distinct (nonstart_targets start ?p)"
    using pre by (simp add: dfs_pre_def)
  then have d: "distinct (filter (\<lambda>t. t \<noteq> start) (start # map edge_to ?p))"
    by (simp add: nonstart_targets_def)
  have l: "last (start # map edge_to ?p) = start"
    using ne tgt by (simp add: last_map)
  show ?thesis
    using d l len lo hi by (simp add: is_cycle_through_def convertToArbitragePath_fields)
qed

lemma mark_gives_edges_pre:
  assumes pre: "dfs_pre start current depth s"
    and nv: "\<not> (0 < depth \<and> current \<noteq> start \<and> current \<in> visited s)"
  shows "edges_pre start depth
           (if current \<noteq> start \<or> 0 < depth then s\<lparr> visited := insert current (visited s) \<rparr> else s)"
proof (cases "depth = 0")
  case True
  with pre have "current = start" "currentPath s = []" by (simp_all add: dfs_pre_def)
  with pre True show ?thesis by (simp add: dfs_pre_def edges_pre_def)
next
  case False
  let ?p = "currentPath s"
  from pre False have ne: "?p \<noteq> []" by (auto simp: dfs_pre_def)
  then have split: "?p = butlast ?p @ [last ?p]" by simp
  from pre ne have tgt: "edge_to (last ?p) = current" by (simp add: dfs_pre_def)
  have ns: "nonstart_targets start ?p =
      nonstart_targets start (butlast ?p) @ (if current \<noteq> start then [current] else [])"
    using nonstart_targets_snoc [of start "butlast ?p" "last ?p"] split tgt by simp
  from pre have vis: "visited s - {start} = set (nonstart_targets start (butlast ?p))"
    and dis: "distinct (nonstart_targets start (butlast ?p))"
    and len: "length ?p = depth"
    by (simp_all add: dfs_pre_def)
  show ?thesis
  proof (cases "current = start")
    case True
    with False ns vis dis len show ?thesis by (auto simp: edges_pre_def)
  next
    case cs: False
    with nv False have "current \<notin> visited s" by simp
    with vis cs have "current \<notin> set (nonstart_targets start (butlast ?p))" by auto
    with cs ns vis dis len show ?thesis by (auto simp: edges_pre_def)
  qed
qed


lemma unmark_restores:
  assumes pre: "dfs_pre start current depth s"
    and nv: "\<not> (0 < depth \<and> current \<noteq> start \<and> current \<in> visited s)"
    and fr: "dfs_frame cfg start
               (if current \<noteq> start \<or> 0 < depth then s\<lparr> visited := insert current (visited s) \<rparr> else s)
               s2"
  shows "dfs_frame cfg start s
           (if current \<noteq> start \<or> 0 < depth then s2\<lparr> visited := visited s2 - {current} \<rparr> else s2)"
proof (cases "current \<noteq> start \<or> 0 < depth")
  case False
  with fr show ?thesis by simp
next
  case True
  with fr have path: "currentPath s2 = currentPath s"
    and vis2: "visited s2 - {start} = insert current (visited s) - {start}"
    and cyc: "\<exists>new. cycles s2 = cycles s @ new \<and> list_all (is_cycle_through cfg start) new"
    by (simp_all add: dfs_frame_def)
  from pre True have dpos: "0 < depth" by (auto simp: dfs_pre_def)
  have "(visited s2 - {current}) - {start} = visited s - {start}"
  proof (cases "current = start")
    case cs: True
    with vis2 show ?thesis by auto
  next
    case cs: False
    with nv dpos have "current \<notin> visited s" by simp
    with vis2 cs show ?thesis by auto
  qed
  with True path cyc show ?thesis by (simp add: dfs_frame_def)
qed

lemma push_gives_dfs_pre:
  assumes "edges_pre start depth s"
  shows "dfs_pre start (edge_to e) (depth + 1) (s\<lparr> currentPath := currentPath s @ [e] \<rparr>)"
  using assms by (simp add: edges_pre_def dfs_pre_def)

lemma pop_restores:
  assumes "dfs_frame cfg start (s\<lparr> currentPath := currentPath s @ [e] \<rparr>) s2"
  shows "dfs_frame cfg start s (s2\<lparr> currentPath := butlast (currentPath s2) \<rparr>)"
  using assms by (simp add: dfs_frame_def)

lemma dfs_too_deep:
  assumes "maxDepth cfg < int depth"
  shows "dfs cfg g current start depth s0 = count_pruned (count_node s0)"
  using assms by (subst dfs.simps) (simp only: Let_def if_True)

lemma dfs_records:
  assumes "\<not> maxDepth cfg < int depth"
    and "minDepth cfg \<le> int depth \<and> current = start \<and> 0 < length (currentPath (count_node s0))"
  shows "dfs cfg g current start depth s0 =
           (count_node s0)\<lparr> cycles := cycles (count_node s0) @
              [convertToArbitragePath (currentPath (count_node s0)) start] \<rparr>"
  by (subst dfs.simps) (simp only: Let_def if_not_P [OF assms(1)] if_P [OF assms(2)])

lemma dfs_seen:
  assumes "\<not> maxDepth cfg < int depth"
    and "\<not> (minDepth cfg \<le> int depth \<and> current = start \<and> 0 < length (currentPath (count_node s0)))"
    and "0 < depth \<and> current \<noteq> start \<and> current \<in> visited (count_node s0)"
  shows "dfs cfg g current start depth s0 = count_pruned (count_node s0)"
  by (subst dfs.simps)
    (simp only: Let_def if_not_P [OF assms(1)] if_not_P [OF assms(2)] if_P [OF assms(3)])

lemma dfs_explores:
  assumes "\<not> maxDepth cfg < int depth"
    and "\<not> (minDepth cfg \<le> int depth \<and> current = start \<and> 0 < length (currentPath (count_node s0)))"
    and "\<not> (0 < depth \<and> current \<noteq> start \<and> current \<in> visited (count_node s0))"
  shows "dfs cfg g current start depth s0 =
     (if current \<noteq> start \<or> 0 < depth
      then (dfs_edges cfg g start depth (getOutgoingEdges g current)
             (if current \<noteq> start \<or> 0 < depth
              then (count_node s0)\<lparr> visited := insert current (visited (count_node s0)) \<rparr>
              else count_node s0))
           \<lparr> visited := visited (dfs_edges cfg g start depth (getOutgoingEdges g current)
             (if current \<noteq> start \<or> 0 < depth
              then (count_node s0)\<lparr> visited := insert current (visited (count_node s0)) \<rparr>
              else count_node s0)) - {current} \<rparr>
      else dfs_edges cfg g start depth (getOutgoingEdges g current)
             (if current \<noteq> start \<or> 0 < depth
              then (count_node s0)\<lparr> visited := insert current (visited (count_node s0)) \<rparr>
              else count_node s0))"
  by (subst dfs.simps)
    (simp only: Let_def if_not_P [OF assms(1)] if_not_P [OF assms(2)] if_not_P [OF assms(3)])

lemma dfs_frame_both:
  "dfs_pre start current depth s0 \<Longrightarrow> dfs_frame cfg start s0 (dfs cfg g current start depth s0)"
  "edges_pre start depth s \<Longrightarrow> dfs_frame cfg start s (dfs_edges cfg g start depth es s)"
proof (induction cfg g current start depth s0 and cfg g start depth es s
        rule: dfs_dfs_edges.induct)
  case (1 cfg g current start depth s0)
  let ?s = "count_node s0"
  from "1.prems" have pre: "dfs_pre start current depth ?s" by simp
  have base: "dfs_frame cfg start s0 ?s" by (rule dfs_frame_count)
  have pruned: "dfs_frame cfg start s0 (count_pruned ?s)"
    using base dfs_frame_count(2) [of cfg start ?s] by (rule dfs_frame_trans)
  show ?case
  proof (cases "maxDepth cfg < int depth")
    case True
    then show ?thesis using pruned by (simp only: dfs_too_deep)
  next
    case deep: False
    show ?thesis
    proof (cases "minDepth cfg \<le> int depth \<and> current = start \<and> 0 < length (currentPath ?s)")
      case True
      have "is_cycle_through cfg start (convertToArbitragePath (currentPath ?s) start)"
        using pre True deep by (intro recorded_cycle_ok [of start current depth]) simp_all
      then have "dfs_frame cfg start ?s
          (?s\<lparr> cycles := cycles ?s @ [convertToArbitragePath (currentPath ?s) start] \<rparr>)"
        by (simp add: dfs_frame_def)
      with base show ?thesis by (simp only: dfs_records [OF deep True]) (rule dfs_frame_trans)
    next
      case norec: False
      show ?thesis
      proof (cases "0 < depth \<and> current \<noteq> start \<and> current \<in> visited ?s")
        case True
        show ?thesis using pruned by (simp only: dfs_seen [OF deep norec True])
      next
        case fresh: False
        let ?s1 = "if current \<noteq> start \<or> 0 < depth
                   then ?s\<lparr> visited := insert current (visited ?s) \<rparr> else ?s"
        let ?s2 = "dfs_edges cfg g start depth (getOutgoingEdges g current) ?s1"
        have "edges_pre start depth ?s1"
          using pre fresh by (rule mark_gives_edges_pre)
        then have "dfs_frame cfg start ?s1 ?s2"
          by (rule "1.IH" [OF refl deep norec fresh refl])
        with pre fresh have "dfs_frame cfg start ?s
            (if current \<noteq> start \<or> 0 < depth then ?s2\<lparr> visited := visited ?s2 - {current} \<rparr> else ?s2)"
          by (rule unmark_restores)
        with base show ?thesis
          by (simp only: dfs_explores [OF deep norec fresh]) (rule dfs_frame_trans)
      qed
    qed
  qed
next
  case (2 cfg g start depth s)
  show ?case by (simp add: dfs_frame_refl)
next
  case (3 cfg g start depth edge es s)
  let ?M = "if enablePruning cfg \<and> effectiveLiquidity edge < minLiquidity cfg then count_pruned s
        else if enablePruning cfg \<and>
                maxGasEstimate cfg < estimatePathGas (currentPath s) + gasEstimate edge
          then count_pruned s
        else
          let s1 = s\<lparr> currentPath := currentPath s @ [edge] \<rparr>;
              s2 = dfs cfg g (edge_to edge) start (depth + 1) s1
          in s2\<lparr> currentPath := butlast (currentPath s2) \<rparr>"
  have step: "dfs_edges cfg g start depth (edge # es) s = dfs_edges cfg g start depth es ?M"
    by (simp only: dfs_edges.simps)
  have mid: "dfs_frame cfg start s ?M"
  proof (cases "(enablePruning cfg \<and> effectiveLiquidity edge < minLiquidity cfg) \<or>
                (enablePruning cfg \<and>
                 maxGasEstimate cfg < estimatePathGas (currentPath s) + gasEstimate edge)")
    case True
    then have "?M = count_pruned s" by auto
    then show ?thesis by (simp only: dfs_frame_count)
  next
    case False
    then have np1: "\<not> (enablePruning cfg \<and> effectiveLiquidity edge < minLiquidity cfg)"
      and np2: "\<not> (enablePruning cfg \<and>
                 maxGasEstimate cfg < estimatePathGas (currentPath s) + gasEstimate edge)"
      by blast+
    let ?s1 = "s\<lparr> currentPath := currentPath s @ [edge] \<rparr>"
    let ?s2 = "dfs cfg g (edge_to edge) start (depth + 1) ?s1"
    have eq: "?M = ?s2\<lparr> currentPath := butlast (currentPath ?s2) \<rparr>"
      by (simp only: Let_def if_not_P [OF np1] if_not_P [OF np2])
    have "dfs_pre start (edge_to edge) (depth + 1) ?s1"
      using "3.prems" by (rule push_gives_dfs_pre)
    then have "dfs_frame cfg start ?s1 ?s2"
      by (rule "3.IH"(1) [OF np1 np2 refl])
    then have "dfs_frame cfg start s (?s2\<lparr> currentPath := butlast (currentPath ?s2) \<rparr>)"
      by (rule pop_restores)
    then show ?thesis by (simp only: eq)
  qed
  with "3.prems" have "edges_pre start depth ?M" by (rule edges_pre_frame)
  then have "dfs_frame cfg start ?M (dfs_edges cfg g start depth es ?M)"
    by (rule "3.IH"(2))
  with mid have "dfs_frame cfg start s (dfs_edges cfg g start depth es ?M)"
    by (rule dfs_frame_trans)
  then show ?case by (simp only: step)
qed

lemma findCycles_paths_ok:
  "list_all (is_cycle_through cfg (toLowerCase startToken)) (fst (findCycles cfg g st startToken))"
proof (cases "hasVertex g (toLowerCase startToken)")
  case False
  then show ?thesis by (simp add: findCycles_def)
next
  case True
  let ?start = "toLowerCase startToken"
  let ?s0 = "\<lparr> visited = {}, currentPath = [], cycles = [], stats = st \<rparr> :: ('a, 'b) dfs_state"
  have "dfs_pre ?start ?start 0 ?s0" by (simp add: dfs_pre_def)
  then have "dfs_frame cfg ?start ?s0 (dfs cfg g ?start ?start 0 ?s0)"
    by (rule dfs_frame_both(1))
  then have "list_all (is_cycle_through cfg ?start) (cycles (dfs cfg g ?start ?start 0 ?s0))"
    by (auto simp: dfs_frame_def)
  with True show ?thesis by (simp add: findCycles_def Let_def)
qed

lemma adds_simple_refl: "adds_simple s s"
  by (simp add: adds_simple_def)

lemma adds_simple_trans:
  assumes "adds_simple s s'" "adds_simple s' s''"
  shows "adds_simple s s''"
proof -
  from assms(1) obtain n1 where n1: "cycles s' = cycles s @ n1"
      "list_all (\<lambda>p. is_simple_cycle (tokenAddresses p)) n1"
    by (auto simp: adds_simple_def)
  from assms(2) obtain n2 where n2: "cycles s'' = cycles s' @ n2"
      "list_all (\<lambda>p. is_simple_cycle (tokenAddresses p)) n2"
    by (auto simp: adds_simple_def)
  have "cycles s'' = cycles s @ (n1 @ n2)"
      "list_all (\<lambda>p. is_simple_cycle (tokenAddresses p)) (n1 @ n2)"
    using n1 n2 by simp_all
  then show ?thesis unfolding adds_simple_def by blast
qed

lemma adds_simple_same_cycles:
  assumes "cycles s' = cycles s"
  shows "adds_simple s s'"
  using assms by (simp add: adds_simple_def)

lemma recorded_cycle_simple:
  assumes pre: "dfs_pre start current depth s" and sp: "simple_pre start current depth s"
    and cur: "current = start" and ne: "currentPath s \<noteq> []"
  shows "is_simple_cycle (tokenAddresses (convertToArbitragePath (currentPath s) start))"
proof -
  let ?p = "currentPath s"
  from pre ne cur have tgt: "edge_to (last ?p) = start" by (simp add: dfs_pre_def)
  from sp have notin: "start \<notin> set (map edge_to (butlast ?p))" by (simp add: simple_pre_def)
  then have "filter (\<lambda>t. t \<noteq> start) (map edge_to (butlast ?p)) = map edge_to (butlast ?p)"
    by (intro filter_True) auto
  with pre have "distinct (map edge_to (butlast ?p))"
    by (simp add: dfs_pre_def nonstart_targets_def)
  with notin have d: "distinct (start # map edge_to (butlast ?p))" by simp
  have b: "butlast (start # map edge_to ?p) = start # map edge_to (butlast ?p)"
    using ne by (simp add: map_butlast)
  have l: "last (start # map edge_to ?p) = start"
    using ne tgt by (simp add: last_map)
  have n: "2 \<le> length (start # map edge_to ?p)"
    using ne by (cases ?p) simp_all
  show ?thesis
    unfolding is_simple_cycle_def convertToArbitragePath_fields
    using d b l n by simp
qed

lemma simple_mark:
  assumes pre: "dfs_pre start current depth s" and sp: "simple_pre start current depth s"
    and lo: "minDepth cfg \<le> 2" and deep: "\<not> maxDepth cfg < int depth"
    and norec: "\<not> (minDepth cfg \<le> int depth \<and> current = start \<and> 0 < length (currentPath s))"
    and loop: "no_self_loop_at g start"
  shows "simple_edges_pre start depth (getOutgoingEdges g current)
           (if current \<noteq> start \<or> 0 < depth then s\<lparr> visited := insert current (visited s) \<rparr> else s)"
proof -
  let ?p = "currentPath s"
  from pre have len: "length ?p = depth" by (simp add: dfs_pre_def)
  have path: "start \<notin> set (map edge_to ?p)"
  proof (cases "depth = 0")
    case True
    with len show ?thesis by simp
  next
    case False
    with len have ne: "?p \<noteq> []" by auto
    then have split: "?p = butlast ?p @ [last ?p]" by simp
    from pre ne have tgt: "edge_to (last ?p) = current" by (simp add: dfs_pre_def)
    have "current \<noteq> start"
    proof (cases "depth = 1")
      case True
      with sp show ?thesis by (simp add: simple_pre_def)
    next
      case d: False
      with False have "2 \<le> int depth" by simp
      with lo have "minDepth cfg \<le> int depth" by simp
      with norec ne show ?thesis by simp
    qed
    moreover from sp have "start \<notin> set (map edge_to (butlast ?p))" by (simp add: simple_pre_def)
    moreover have "set (map edge_to ?p) = set (map edge_to (butlast ?p)) \<union> {edge_to (last ?p)}"
      using split by (metis list.set(1) list.set(2) list.simps(8) list.simps(9) map_append set_append)
    ultimately show ?thesis using tgt by auto
  qed
  have zero: "list_all (\<lambda>e. edge_to e \<noteq> start) (getOutgoingEdges g current)" if "depth = 0"
  proof -
    from pre that have "current = start" by (simp add: dfs_pre_def)
    with loop show ?thesis by (simp add: no_self_loop_at_def)
  qed
  from path zero show ?thesis by (simp add: simple_edges_pre_def)
qed

lemma dfs_simple_both:
  "dfs_pre start current depth s0 \<Longrightarrow> simple_pre start current depth s0 \<Longrightarrow>
     minDepth cfg \<le> 2 \<Longrightarrow> no_self_loop_at g start \<Longrightarrow>
     adds_simple s0 (dfs cfg g current start depth s0)"
  "edges_pre start depth s \<Longrightarrow> simple_edges_pre start depth es s \<Longrightarrow>
     minDepth cfg \<le> 2 \<Longrightarrow> no_self_loop_at g start \<Longrightarrow>
     adds_simple s (dfs_edges cfg g start depth es s)"
proof (induction cfg g current start depth s0 and cfg g start depth es s
        rule: dfs_dfs_edges.induct)
  case (1 cfg g current start depth s0)
  let ?s = "count_node s0"
  from "1.prems" have pre: "dfs_pre start current depth ?s" by simp
  from "1.prems" have sp: "simple_pre start current depth ?s" by (simp add: simple_pre_def)
  have base: "adds_simple s0 ?s" by (rule adds_simple_same_cycles) simp
  have pruned: "adds_simple s0 (count_pruned ?s)" by (rule adds_simple_same_cycles) simp
  show ?case
  proof (cases "maxDepth cfg < int depth")
    case True
    then show ?thesis using pruned by (simp only: dfs_too_deep)
  next
    case deep: False
    show ?thesis
    proof (cases "minDepth cfg \<le> int depth \<and> current = start \<and> 0 < length (currentPath ?s)")
      case True
      have "is_simple_cycle (tokenAddresses (convertToArbitragePath (currentPath ?s) start))"
        using pre sp True by (intro recorded_cycle_simple [of start current depth]) simp_all
      then have "adds_simple s0
          (?s\<lparr> cycles := cycles ?s @ [convertToArbitragePath (currentPath ?s) start] \<rparr>)"
        by (simp add: adds_simple_def)
      then show ?thesis by (simp only: dfs_records [OF deep True])
    next
      case norec: False
      show ?thesis
      proof (cases "0 < depth \<and> current \<noteq> start \<and> current \<in> visited ?s")
        case True
        show ?thesis using pruned by (simp only: dfs_seen [OF deep norec True])
      next
        case fresh: False
        let ?s1 = "if current \<noteq> start \<or> 0 < depth
                   then ?s\<lparr> visited := insert current (visited ?s) \<rparr> else ?s"
        let ?s2 = "dfs_edges cfg g start depth (getOutgoingEdges g current) ?s1"
        have e: "edges_pre start depth ?s1"
          using pre fresh by (rule mark_gives_edges_pre)
        have se: "simple_edges_pre start depth (getOutgoingEdges g current) ?s1"
          using pre sp "1.prems"(3) deep norec "1.prems"(4) by (rule simple_mark)
        have c1: "cycles ?s1 = cycles s0" by simp
        have c2: "cycles (if current \<noteq> start \<or> 0 < depth
                          then ?s2\<lparr> visited := visited ?s2 - {current} \<rparr> else ?s2) = cycles ?s2"
          by simp
        have "adds_simple ?s1 ?s2"
          using e se "1.prems"(3,4) by (rule "1.IH" [OF refl deep norec fresh refl])
        then have "adds_simple s0
            (if current \<noteq> start \<or> 0 < depth then ?s2\<lparr> visited := visited ?s2 - {current} \<rparr> else ?s2)"
          by (simp only: adds_simple_def c1 c2)
        then show ?thesis by (simp only: dfs_explores [OF deep norec fresh])
      qed
    qed
  qed
next
  case (2 cfg g start depth s)
  show ?case by (simp add: adds_simple_refl)
next
  case (3 cfg g start depth edge es s)
  let ?M = "if enablePruning cfg \<and> effectiveLiquidity edge < minLiquidity cfg then count_pruned s
        else if enablePruning cfg \<and>
                maxGasEstimate cfg < estimatePathGas (currentPath s) + gasEstimate edge
          then count_pruned s
        else
          let s1 = s\<lparr> currentPath := currentPath s @ [edge] \<rparr>;
              s2 = dfs cfg g (edge_to edge) start (depth + 1) s1
          in s2\<lparr> currentPath := butlast (currentPath s2) \<rparr>"
  have step: "dfs_edges cfg g start depth (edge # es) s = dfs_edges cfg g start depth es ?M"
    by (simp only: dfs_edges.simps)
  from "3.prems"(2) have notin: "start \<notin> set (map edge_to (currentPath s))"
    and zero: "depth = 0 \<longrightarrow> edge_to edge \<noteq> start \<and> list_all (\<lambda>e. edge_to e \<noteq> start) es"
    by (simp_all add: simple_edges_pre_def)
  have mid: "adds_simple s ?M \<and> dfs_frame cfg start s ?M"
  proof (cases "(enablePruning cfg \<and> effectiveLiquidity edge < minLiquidity cfg) \<or>
                (enablePruning cfg \<and>
                 maxGasEstimate cfg < estimatePathGas (currentPath s) + gasEstimate edge)")
    case True
    then have "?M = count_pruned s" by auto
    then show ?thesis by (simp only: dfs_frame_count) (simp add: adds_simple_def)
  next
    case False
    then have np1: "\<not> (enablePruning cfg \<and> effectiveLiquidity edge < minLiquidity cfg)"
      and np2: "\<not> (enablePruning cfg \<and>
                 maxGasEstimate cfg < estimatePathGas (currentPath s) + gasEstimate edge)"
      by blast+
    let ?s1 = "s\<lparr> currentPath := currentPath s @ [edge] \<rparr>"
    let ?s2 = "dfs cfg g (edge_to edge) start (depth + 1) ?s1"
    have eq: "?M = ?s2\<lparr> currentPath := butlast (currentPath ?s2) \<rparr>"
      by (simp only: Let_def if_not_P [OF np1] if_not_P [OF np2])
    have p: "dfs_pre start (edge_to edge) (depth + 1) ?s1"
      using "3.prems"(1) by (rule push_gives_dfs_pre)
    have sp: "simple_pre start (edge_to edge) (depth + 1) ?s1"
      using notin zero by (simp add: simple_pre_def)
    have "adds_simple ?s1 ?s2"
      using p sp "3.prems"(3,4) by (rule "3.IH"(1) [OF np1 np2 refl])
    then have a: "adds_simple s (?s2\<lparr> currentPath := butlast (currentPath ?s2) \<rparr>)"
      by (simp add: adds_simple_def)
    have "dfs_frame cfg start ?s1 ?s2" using p by (rule dfs_frame_both(1))
    then have "dfs_frame cfg start s (?s2\<lparr> currentPath := butlast (currentPath ?s2) \<rparr>)"
      by (rule pop_restores)
    with a show ?thesis by (simp only: eq)
  qed
  then have fr: "dfs_frame cfg start s ?M" by simp
  with "3.prems"(1) have e: "edges_pre start depth ?M" by (rule edges_pre_frame)
  from fr have "currentPath ?M = currentPath s" by (simp only: dfs_frame_def)
  with notin zero have se: "simple_edges_pre start depth es ?M"
    by (simp only: simple_edges_pre_def) simp
  have "adds_simple ?M (dfs_edges cfg g start depth es ?M)"
    using e se "3.prems"(3,4) by (rule "3.IH"(2))
  with mid have "adds_simple s (dfs_edges cfg g start depth es ?M)"
    by (blast intro: adds_simple_trans)
  then show ?case by (simp only: step)
qed

lemma findCycles_simple_cycles:
  assumes "minDepth cfg \<le> 2" "no_self_loop_at g (toLowerCase startToken)"
  shows "list_all (\<lambda>p. is_simple_cycle (tokenAddresses p)) (fst (findCycles cfg g st startToken))"
proof (cases "hasVertex g (toLowerCase startToken)")
  case False
  then show ?thesis by (simp add: findCycles_def)
next
  case True
  let ?start = "toLowerCase startToken"
  let ?s0 = "\<lparr> visited = {}, currentPath = [], cycles = [], stats = st \<rparr> :: ('a, 'b) dfs_state"
  have "dfs_pre ?start ?start 0 ?s0" by (simp add: dfs_pre_def)
  moreover have "simple_pre ?start ?start 0 ?s0" by (simp add: simple_pre_def)
  ultimately have "adds_simple ?s0 (dfs cfg g ?start ?start 0 ?s0)"
    using assms by (rule dfs_simple_both(1))
  then have "list_all (\<lambda>p. is_simple_cycle (tokenAddresses p)) (cycles (dfs cfg g ?start ?start 0 ?s0))"
    by (auto simp: adds_simple_def)
  with True show ?thesis by (simp add: findCycles_def Let_def)
qed

text \<open>
  Claim C3, amended. Every path that \<open>findCycles\<close> returns is a cycle through
  \<open>start = toLowerCase startToken\<close>: its token sequence starts and ends with \<open>start\<close>, is
  one longer than its hop list, its hop count lies between \<open>minDepth\<close> and \<open>maxDepth\<close>, and
  no token other than \<open>start\<close> occurs twice in it. If moreover \<open>minDepth \<le> 2\<close> and \<open>start\<close>
  has no edge to itself, as in the default configuration on a graph of pools, the path is
  a simple cycle.
\<close>

theorem findCycles_paths_valid:
  "list_all (is_cycle_through cfg (toLowerCase startToken)) (fst (findCycles cfg g st startToken)) \<and>
   (minDepth cfg \<le> 2 \<and> no_self_loop_at g (toLowerCase startToken) \<longrightarrow>
      list_all (\<lambda>p. is_simple_cycle (tokenAddresses p)) (fst (findCycles cfg g st startToken)))"
  using findCycles_paths_ok [of cfg startToken g st] findCycles_simple_cycles [of cfg g startToken st]
  by blast

text \<open>
  The amended C3 for \<open>findCycles ''A''\<close> on the graph with two pools between \<open>a\<close> and \<open>b\<close>,
  default configuration: four cycles \<open>a, b, a\<close>, one for each choice of pools.
\<close>

theorem findCycles_paths_valid_witness:
  "map tokenAddresses (fst (findCycles DEFAULT_PATHFINDER_CONFIG parallel_graph zero_stats ''A''))
     = [[''a'', ''b'', ''a''], [''a'', ''b'', ''a''], [''a'', ''b'', ''a''], [''a'', ''b'', ''a'']] \<and>
   list_all (is_cycle_through DEFAULT_PATHFINDER_CONFIG ''a'')
     (fst (findCycles DEFAULT_PATHFINDER_CONFIG parallel_graph zero_stats ''A'')) \<and>
   list_all (\<lambda>p. is_simple_cycle (tokenAddresses p))
     (fst (findCycles DEFAULT_PATHFINDER_CONFIG parallel_graph zero_stats ''A''))"
proof -
  have a: "minDepth DEFAULT_PATHFINDER_CONFIG \<le> 2" by (simp add: DEFAULT_PATHFINDER_CONFIG_def)
  have b: "no_self_loop_at parallel_graph (toLowerCase ''A'')" by code_simp
  have l: "toLowerCase ''A'' = ''a''" by code_simp
  have c: "map tokenAddresses (fst (findCycles DEFAULT_PATHFINDER_CONFIG parallel_graph zero_stats ''A''))
     = [[''a'', ''b'', ''a''], [''a'', ''b'', ''a''], [''a'', ''b'', ''a''], [''a'', ''b'', ''a'']]"
    by code_simp
  from findCycles_paths_valid [of DEFAULT_PATHFINDER_CONFIG "''A''" parallel_graph zero_stats] a b c
  show ?thesis by (simp only: l)
qed

text \<open>
  Claim C3 as stated: \<open>findCycles ''S''\<close> on the star graph with \<open>minDepth = 3\<close> and
  \<open>maxDepth = 4\<close> returns two paths. They start with \<open>''s''\<close>, the lower-cased argument,
  not with \<open>''S''\<close>; and they pass through the start token in the middle, so they are not
  simple cycles.
\<close>

theorem findCycles_not_simple_counterexample:
  "map tokenAddresses (fst (findCycles deep_config star_graph zero_stats ''S'')) =
     [[''s'', ''a'', ''s'', ''b'', ''s''], [''s'', ''b'', ''s'', ''a'', ''s'']] \<and>
   hd [''s'', ''a'', ''s'', ''b'', ''s''] \<noteq> ''S'' \<and>
   \<not> is_simple_cycle [''s'', ''a'', ''s'', ''b'', ''s'']"
  by code_simp

lemma stats_fields [simp]:
  "nodesVisited (stats (count_node s)) = nodesVisited (stats s) + 1"
  "nodesVisited (stats (count_pruned s)) = nodesVisited (stats s)"
  by (simp_all add: count_node_def count_pruned_def)

lemma nodes_bound_pos: "1 \<le> nodes_bound m n"
  by (cases n) simp_all

lemma nodes_bound_step:
  assumes "\<not> maxDepth cfg < int depth"
  shows "nodes_bound m (nat (maxDepth cfg - int depth + 1)) =
           1 + m * nodes_bound m (nat (maxDepth cfg - int depth))"
proof -
  from assms have "nat (maxDepth cfg - int depth + 1) = Suc (nat (maxDepth cfg - int depth))"
    by simp
  then show ?thesis by simp
qed

lemma dfs_nodes_both:
  "\<forall>t. length (getOutgoingEdges g t) \<le> m \<Longrightarrow>
     nodesVisited (stats (dfs cfg g current start depth s0))
       \<le> nodesVisited (stats s0) + nodes_bound m (nat (maxDepth cfg - int depth + 1))"
  "\<forall>t. length (getOutgoingEdges g t) \<le> m \<Longrightarrow>
     nodesVisited (stats (dfs_edges cfg g start depth es s))
       \<le> nodesVisited (stats s) + length es * nodes_bound m (nat (maxDepth cfg - int depth))"
proof (induction cfg g current start depth s0 and cfg g start depth es s
        rule: dfs_dfs_edges.induct)
  case (1 cfg g current start depth s0)
  let ?s = "count_node s0"
  let ?B = "nodes_bound m (nat (maxDepth cfg - int depth + 1))"
  have one: "nodesVisited (stats ?s) \<le> nodesVisited (stats s0) + ?B"
    using nodes_bound_pos [of m "nat (maxDepth cfg - int depth + 1)"] by simp
  show ?case
  proof (cases "maxDepth cfg < int depth")
    case True
    then show ?thesis using one by (simp only: dfs_too_deep stats_fields)
  next
    case deep: False
    show ?thesis
    proof (cases "minDepth cfg \<le> int depth \<and> current = start \<and> 0 < length (currentPath ?s)")
      case True
      show ?thesis using one by (simp only: dfs_records [OF deep True]) simp
    next
      case norec: False
      show ?thesis
      proof (cases "0 < depth \<and> current \<noteq> start \<and> current \<in> visited ?s")
        case True
        show ?thesis using one by (simp only: dfs_seen [OF deep norec True] stats_fields)
      next
        case fresh: False
        let ?s1 = "if current \<noteq> start \<or> 0 < depth
                   then ?s\<lparr> visited := insert current (visited ?s) \<rparr> else ?s"
        let ?s2 = "dfs_edges cfg g start depth (getOutgoingEdges g current) ?s1"
        let ?b = "nodes_bound m (nat (maxDepth cfg - int depth))"
        have "nodesVisited (stats ?s2)
                \<le> nodesVisited (stats ?s1) + length (getOutgoingEdges g current) * ?b"
          using "1.prems" by (rule "1.IH" [OF refl deep norec fresh refl])
        moreover have "length (getOutgoingEdges g current) * ?b \<le> m * ?b"
          using "1.prems" by (intro mult_le_mono1) simp
        moreover have "nodesVisited (stats ?s1) = nodesVisited (stats s0) + 1" by simp
        ultimately have "nodesVisited (stats ?s2) \<le> nodesVisited (stats s0) + (1 + m * ?b)"
          by linarith
        then have "nodesVisited (stats ?s2) \<le> nodesVisited (stats s0) + ?B"
          by (simp only: nodes_bound_step [OF deep])
        moreover have "stats (dfs cfg g current start depth s0) = stats ?s2"
          by (simp only: dfs_explores [OF deep norec fresh]) simp
        ultimately show ?thesis by (simp only:)
      qed
    qed
  qed
next
  case (2 cfg g start depth s)
  show ?case by simp
next
  case (3 cfg g start depth edge es s)
  let ?b = "nodes_bound m (nat (maxDepth cfg - int depth))"
  let ?M = "if enablePruning cfg \<and> effectiveLiquidity edge < minLiquidity cfg then count_pruned s
        else if enablePruning cfg \<and>
                maxGasEstimate cfg < estimatePathGas (currentPath s) + gasEstimate edge
          then count_pruned s
        else
          let s1 = s\<lparr> currentPath := currentPath s @ [edge] \<rparr>;
              s2 = dfs cfg g (edge_to edge) start (depth + 1) s1
          in s2\<lparr> currentPath := butlast (currentPath s2) \<rparr>"
  have step: "dfs_edges cfg g start depth (edge # es) s = dfs_edges cfg g start depth es ?M"
    by (simp only: dfs_edges.simps)
  have mid: "nodesVisited (stats ?M) \<le> nodesVisited (stats s) + ?b"
  proof (cases "(enablePruning cfg \<and> effectiveLiquidity edge < minLiquidity cfg) \<or>
                (enablePruning cfg \<and>
                 maxGasEstimate cfg < estimatePathGas (currentPath s) + gasEstimate edge)")
    case True
    then have "?M = count_pruned s" by auto
    then show ?thesis by (simp only: stats_fields)
  next
    case False
    then have np1: "\<not> (enablePruning cfg \<and> effectiveLiquidity edge < minLiquidity cfg)"
      and np2: "\<not> (enablePruning cfg \<and>
                 maxGasEstimate cfg < estimatePathGas (currentPath s) + gasEstimate edge)"
      by blast+
    let ?s1 = "s\<lparr> currentPath := currentPath s @ [edge] \<rparr>"
    let ?s2 = "dfs cfg g (edge_to edge) start (depth + 1) ?s1"
    have eq: "?M = ?s2\<lparr> currentPath := butlast (currentPath ?s2) \<rparr>"
      by (simp only: Let_def if_not_P [OF np1] if_not_P [OF np2])
    have "nodesVisited (stats ?s2)
            \<le> nodesVisited (stats ?s1) + nodes_bound m (nat (maxDepth cfg - int (depth + 1) + 1))"
      using "3.prems" by (rule "3.IH"(1) [OF np1 np2 refl])
    moreover have "nat (maxDepth cfg - int (depth + 1) + 1) = nat (maxDepth cfg - int depth)"
      by simp
    ultimately have "nodesVisited (stats ?s2) \<le> nodesVisited (stats s) + ?b" by simp
    then show ?thesis by (simp only: eq) simp
  qed
  have "nodesVisited (stats (dfs_edges cfg g start depth es ?M))
          \<le> nodesVisited (stats ?M) + length es * ?b"
    using "3.prems" by (rule "3.IH"(2))
  with mid have "nodesVisited (stats (dfs_edges cfg g start depth es ?M))
          \<le> nodesVisited (stats s) + (?b + length es * ?b)" by linarith
  then show ?case by (simp only: step) simp
qed

text \<open>
  Claim C7. \<open>dfs\<close> and its loop are total: the termination proof above uses the measure
  \<open>maxDepth - depth\<close>, which every recursive call decreases, and a call whose depth exceeds
  \<open>maxDepth\<close> returns at once. So \<open>findCycles\<close> always returns, and on a graph whose
  out-degrees are at most \<open>m\<close> it visits at most \<open>1 + m + \<dots> + m ^ (maxDepth + 1)\<close> nodes.
\<close>

theorem findCycles_returns_bounded:
  assumes "\<forall>t. length (getOutgoingEdges g t) \<le> m"
  shows "(\<exists>paths st'. findCycles cfg g st startToken = (paths, st') \<and>
            nodesVisited st' \<le> nodesVisited st + nodes_bound m (nat (maxDepth cfg + 1))) \<and>
         (maxDepth cfg < int depth \<longrightarrow>
            dfs cfg g current start depth s = count_pruned (count_node s))"
proof -
  let ?start = "toLowerCase startToken"
  let ?s0 = "\<lparr> visited = {}, currentPath = [], cycles = [], stats = st \<rparr> :: ('a, 'b) dfs_state"
  have "nodesVisited (stats (dfs cfg g ?start ?start 0 ?s0))
          \<le> nodesVisited (stats ?s0) + nodes_bound m (nat (maxDepth cfg - int 0 + 1))"
    using assms by (rule dfs_nodes_both(1))
  then have "nodesVisited (snd (findCycles cfg g st startToken))
          \<le> nodesVisited st + nodes_bound m (nat (maxDepth cfg + 1))"
    by (simp add: findCycles_def Let_def)
  then have "\<exists>paths st'. findCycles cfg g st startToken = (paths, st') \<and>
            nodesVisited st' \<le> nodesVisited st + nodes_bound m (nat (maxDepth cfg + 1))"
    by (cases "findCycles cfg g st startToken") simp
  then show ?thesis by (simp add: dfs_too_deep)
qed

lemma star_graph_degree: "\<forall>t. length (getOutgoingEdges star_graph t) \<le> 2"
  by (simp add: star_graph_def)

text \<open>C7 on the star graph (out-degree at most 2) with \<open>maxDepth = 4\<close>: the bound is 63.\<close>

theorem findCycles_returns_bounded_witness:
  "(\<forall>t. length (getOutgoingEdges star_graph t) \<le> 2) \<and>
   (\<exists>paths st'. findCycles deep_config star_graph zero_stats ''S'' = (paths, st') \<and>
      nodesVisited st' \<le> nodesVisited zero_stats + nodes_bound 2 (nat (maxDepth deep_config + 1))) \<and>
   nodes_bound 2 (nat (maxDepth deep_config + 1)) = 63"
proof -
  have b: "nodes_bound 2 (nat (maxDepth deep_config + 1)) = 63" by code_simp
  from findCycles_returns_bounded [OF star_graph_degree, of deep_config zero_stats "''S''"]
  have "\<exists>paths st'. findCycles deep_config star_graph zero_stats ''S'' = (paths, st') \<and>
      nodesVisited st' \<le> nodesVisited zero_stats + nodes_bound 2 (nat (maxDepth deep_config + 1))"
    by blast
  with star_graph_degree b show ?thesis by blast
qed

lemma removeDuplicates_loop_inv:
  assumes "seen = set (map getPathKey unique)" "distinct (map getPathKey unique)"
  shows "distinct (map getPathKey (removeDuplicates_loop ps seen unique)) \<and>
         set (map getPathKey (removeDuplicates_loop ps seen unique)) = seen \<union> set (map getPathKey ps) \<and>
         set (removeDuplicates_loop ps seen unique) \<subseteq> set unique \<union> set ps"
  using assms
proof (induction ps arbitrary: seen unique)
  case Nil
  then show ?case by simp
next
  case (Cons p ps)
  show ?case
  proof (cases "getPathKey p \<in> seen")
    case True
    with Cons.IH [OF Cons.prems] show ?thesis by (auto simp: Let_def)
  next
    case False
    have s: "insert (getPathKey p) seen = set (map getPathKey (unique @ [p]))"
      using Cons.prems by simp
    have d: "distinct (map getPathKey (unique @ [p]))"
      using Cons.prems False by simp
    from Cons.IH [OF s d] False show ?thesis by (auto simp: Let_def)
  qed
qed

lemma find_snoc:
  "find P (xs @ [y]) = (case find P xs of Some x \<Rightarrow> Some x | None \<Rightarrow> if P y then Some y else None)"
  by (induction xs) simp_all

lemma removeDuplicates_loop_find:
  assumes "seen = set (map getPathKey unique)"
  shows "find (\<lambda>q. getPathKey q = k) (removeDuplicates_loop ps seen unique) =
           (case find (\<lambda>q. getPathKey q = k) unique of
              Some q \<Rightarrow> Some q
            | None \<Rightarrow> find (\<lambda>q. getPathKey q = k) ps)"
  using assms
proof (induction ps arbitrary: seen unique)
  case Nil
  then show ?case by (simp split: option.splits)
next
  case (Cons p ps)
  show ?case
  proof (cases "getPathKey p \<in> seen")
    case True
    then have "find (\<lambda>q. getPathKey q = k) (removeDuplicates_loop (p # ps) seen unique) =
           (case find (\<lambda>q. getPathKey q = k) unique of
              Some q \<Rightarrow> Some q
            | None \<Rightarrow> find (\<lambda>q. getPathKey q = k) ps)"
      using Cons.IH [OF Cons.prems] by (simp add: Let_def)
    moreover have "find (\<lambda>q. getPathKey q = k) unique \<noteq> None" if "getPathKey p = k"
      using that True Cons.prems by (auto simp: find_None_iff)
    ultimately show ?thesis by (auto split: option.splits)
  next
    case False
    have s: "insert (getPathKey p) seen = set (map getPathKey (unique @ [p]))"
      using Cons.prems by simp
    from Cons.IH [OF s] False show ?thesis
      by (auto simp: Let_def find_snoc split: option.splits)
  qed
qed

text \<open>
  Claim C8, amended. \<open>removeDuplicates\<close>, applied to any list of paths (the result of
  \<open>findAllCycles\<close> included), returns paths of that list with pairwise different keys,
  hence pairwise different token sequences; every key of the list is kept, and for each
  key the path kept is the first one of the list with it.
\<close>

theorem removeDuplicates_unique_keys:
  "distinct (map getPathKey (removeDuplicates paths)) \<and>
   distinct (map tokenAddresses (removeDuplicates paths)) \<and>
   set (map getPathKey (removeDuplicates paths)) = set (map getPathKey paths) \<and>
   set (removeDuplicates paths) \<subseteq> set paths \<and>
   find (\<lambda>q. getPathKey q = k) (removeDuplicates paths) = find (\<lambda>q. getPathKey q = k) paths"
proof -
  have inv: "distinct (map getPathKey (removeDuplicates paths)) \<and>
         set (map getPathKey (removeDuplicates paths)) = {} \<union> set (map getPathKey paths) \<and>
         set (removeDuplicates paths) \<subseteq> set [] \<union> set paths"
    unfolding removeDuplicates_def by (rule removeDuplicates_loop_inv) simp_all
  have "map getPathKey (removeDuplicates paths) =
          map (join_with ''->'') (map tokenAddresses (removeDuplicates paths))"
    by (simp add: getPathKey_def)
  with inv have "distinct (map (join_with ''->'') (map tokenAddresses (removeDuplicates paths)))"
    by (simp only:)
  then have "distinct (map tokenAddresses (removeDuplicates paths))"
    by (simp only: distinct_map)
  moreover have "find (\<lambda>q. getPathKey q = k) (removeDuplicates paths) = find (\<lambda>q. getPathKey q = k) paths"
    unfolding removeDuplicates_def by (subst removeDuplicates_loop_find) simp_all
  ultimately show ?thesis using inv by simp
qed

text \<open>
  Claim C8 as stated: \<open>findAllCycles\<close> does not call \<open>removeDuplicates\<close>. With two pools
  between the tokens \<open>a\<close> and \<open>b\<close> and the default configuration it returns eight paths,
  four with the token sequence \<open>a, b, a\<close> and four with \<open>b, a, b\<close>.
\<close>

theorem findAllCycles_duplicates_counterexample:
  "map tokenAddresses (fst (findAllCycles DEFAULT_PATHFINDER_CONFIG parallel_graph)) =
     [[''a'', ''b'', ''a''], [''a'', ''b'', ''a''], [''a'', ''b'', ''a''], [''a'', ''b'', ''a''],
      [''b'', ''a'', ''b''], [''b'', ''a'', ''b''], [''b'', ''a'', ''b''], [''b'', ''a'', ''b'']] \<and>
   \<not> distinct (map tokenAddresses (fst (findAllCycles DEFAULT_PATHFINDER_CONFIG parallel_graph)))"
  by code_simp

text \<open>The amended C8 on that result: one path is left for each token sequence.\<close>

theorem removeDuplicates_unique_keys_witness:
  "distinct (map tokenAddresses
      (removeDuplicates (fst (findAllCycles DEFAULT_PATHFINDER_CONFIG parallel_graph)))) \<and>
   map tokenAddresses (removeDuplicates (fst (findAllCycles DEFAULT_PATHFINDER_CONFIG parallel_graph)))
     = [[''a'', ''b'', ''a''], [''b'', ''a'', ''b'']]"
proof -
  have "map tokenAddresses (removeDuplicates (fst (findAllCycles DEFAULT_PATHFINDER_CONFIG parallel_graph)))
     = [[''a'', ''b'', ''a''], [''b'', ''a'', ''b'']]"
    by code_simp
  with removeDuplicates_unique_keys [of "fst (findAllCycles DEFAULT_PATHFINDER_CONFIG parallel_graph)"]
  show ?thesis by blast
qed

end
